theory Spec2Isabelle
  imports Main "HOL-Library.Word"
begin

unbundle bit_operations_syntax

section \<open>Machine types of aeslib.c\<close>

text \<open>
  \<^verbatim>\<open>unsigned char\<close> is an 8-bit word, \<^verbatim>\<open>unsigned int\<close> and \<^verbatim>\<open>int\<close> are 32-bit words
  (an \<^verbatim>\<open>int\<close> is read with \<open>sint\<close>), \<^verbatim>\<open>size_t\<close> is a 64-bit word. Arithmetic on
  words wraps around as the C arithmetic on unsigned types does.
\<close>

type_synonym byte = "8 word"
type_synonym uint32 = "32 word"
type_synonym size_t = "64 word"

text \<open>Steps of a counter that stay in range, as needed for the termination of the loops.\<close>

lemma word_succ: "i < n \<Longrightarrow> unat (i + 1) = unat i + 1"
  for i :: "'a::len word"
proof -
  assume "i < n"
  then have a: "unat i < unat n"
    by (simp add: word_less_nat_alt)
  have b: "unat n < 2 ^ LENGTH('a)"
    by (rule unsigned_less)
  from a b have "unat i + 1 < 2 ^ LENGTH('a)"
    by linarith
  then have "unat i + unat (1 :: 'a word) < 2 ^ LENGTH('a)"
    by simp
  then have "unat (i + 1) = unat i + unat (1 :: 'a word)"
    by (simp only: unat_add_lem)
  then show ?thesis
    by simp
qed

lemma uint_succ32: "uint i < 2147483648 \<Longrightarrow> uint (i + 1) = uint i + 1" for i :: uint32
proof -
  assume "uint i < 2147483648"
  then have "uint i + uint (1 :: uint32) < 2 ^ LENGTH(32)"
    by simp
  then have "uint (i + 1) = uint i + uint (1 :: uint32)"
    by (simp only: uint_add_lem)
  then show ?thesis
    by simp
qed

lemma sint32: "sint i = (uint i + 2147483648) mod 4294967296 - 2147483648" for i :: uint32
  by (simp add: sint_uint signed_take_bit_eq_take_bit_shift take_bit_eq_mod)

lemma sint_small: "uint i < 2147483648 \<Longrightarrow> sint i = uint i" for i :: uint32
proof -
  assume lt: "uint i < 2147483648"
  have "0 \<le> uint i + 2147483648" "uint i + 2147483648 < 4294967296"
    using uint_ge_0 [of i] lt by linarith+
  then have "(uint i + 2147483648) mod 4294967296 = uint i + 2147483648"
    by (rule mod_pos_pos_trivial)
  then show ?thesis unfolding sint32 by linarith
qed

lemma sint_nonneg: "0 \<le> sint i \<Longrightarrow> uint i < 2147483648" for i :: uint32
proof (rule ccontr)
  assume nn: "0 \<le> sint i" and "\<not> uint i < 2147483648"
  then have ge: "2147483648 \<le> uint i" by simp
  have lt: "uint i < 4294967296" using uint_lt2p [of i] by simp
  have "uint i + 2147483648 = (uint i - 2147483648) + 4294967296" by simp
  then have "(uint i + 2147483648) mod 4294967296 = (uint i - 2147483648) mod 4294967296"
    by (simp only: mod_add_self2)
  also have "\<dots> = uint i - 2147483648"
    using ge lt by (intro mod_pos_pos_trivial) linarith+
  finally have "sint i = uint i - 4294967296" unfolding sint32 by linarith
  with lt nn show False by linarith
qed

section \<open>aes_assemble_image\<close>

text \<open>
  The two buffers are byte lists. \<^verbatim>\<open>input\<close> is a pointer that only moves forward, so it is
  the list together with the index \<open>ip\<close> of the byte the pointer is at. An access outside
  a buffer is undefined behaviour in C; the model stops there with a \<open>fault\<close>.
  Every access that is performed is appended to a log, in program order.
\<close>

datatype fault = ReadOutOfBounds nat | WriteOutOfBounds nat

datatype access = Rd nat | Wr nat byte

text \<open>\<^verbatim>\<open>output[i] = v\<close>\<close>

definition store :: "byte list \<Rightarrow> size_t \<Rightarrow> byte \<Rightarrow> fault + byte list" where
  "store buf i v =
     (if unat i < length buf then Inr (buf[unat i := v])
      else Inl (WriteOutOfBounds (unat i)))"

text \<open>
  \<^verbatim>\<open>(*input & 0x07) * 36\<close> and \<^verbatim>\<open>((*input & 0x70) >> 4) * 36\<close>: the byte is promoted to
  \<^verbatim>\<open>int\<close>, the expression is computed on \<^verbatim>\<open>int\<close>, and the assignment to an
  \<^verbatim>\<open>unsigned char\<close> keeps the low 8 bits.
\<close>

definition even_row_int :: "byte \<Rightarrow> int" where
  "even_row_int b = (uint b AND 0x07) * 36"

definition odd_row_int :: "byte \<Rightarrow> int" where
  "odd_row_int b = drop_bit 4 (uint b AND 0x70) * 36"

definition even_row_pixel :: "byte \<Rightarrow> byte" where
  "even_row_pixel b = word_of_int (even_row_int b)"

definition odd_row_pixel :: "byte \<Rightarrow> byte" where
  "odd_row_pixel b = word_of_int (odd_row_int b)"

text \<open>
  The inner loop \<^verbatim>\<open>for (row = 0; row < height; row += 2)\<close>, entered at \<open>row\<close>. It returns
  the input index, the output buffer and the access log as the loop leaves them.
\<close>

function assemble_rows ::
  "byte list \<Rightarrow> size_t \<Rightarrow> size_t \<Rightarrow> size_t \<Rightarrow> size_t \<Rightarrow> nat \<Rightarrow> byte list \<Rightarrow> access list
     \<Rightarrow> fault + (nat \<times> byte list \<times> access list)" where
  "assemble_rows input width height column row ip output log =
     (if row < height then
        (if ip < length input then
           (case store output (width * row + column) (even_row_pixel (input ! ip)) of
              Inl e \<Rightarrow> Inl e
            | Inr out1 \<Rightarrow>
                (case store out1 (width * (row + 1) + column) (odd_row_pixel (input ! ip)) of
                   Inl e \<Rightarrow> Inl e
                 | Inr out2 \<Rightarrow>
                     assemble_rows input width height column (row + 2) (ip + 1) out2
                       (log @ [Rd ip,
                               Wr (unat (width * row + column)) (even_row_pixel (input ! ip)),
                               Wr (unat (width * (row + 1) + column))
                                  (odd_row_pixel (input ! ip))])))
         else Inl (ReadOutOfBounds ip))
      else Inr (ip, output, log))"
  by pat_completeness auto
termination
  by (relation "measure (\<lambda>(input, width, height, column, row, ip, output, log).
                  length input - ip)") auto

declare assemble_rows.simps [simp del]

text \<open>The outer loop \<^verbatim>\<open>for (column = 0; column < width; column++)\<close>, entered at \<open>column\<close>.\<close>

function assemble_columns ::
  "byte list \<Rightarrow> size_t \<Rightarrow> size_t \<Rightarrow> size_t \<Rightarrow> nat \<Rightarrow> byte list \<Rightarrow> access list
     \<Rightarrow> fault + (nat \<times> byte list \<times> access list)" where
  "assemble_columns input width height column ip output log =
     (if column < width then
        (case assemble_rows input width height column 0 ip output log of
           Inl e \<Rightarrow> Inl e
         | Inr (ip', output', log') \<Rightarrow>
             assemble_columns input width height (column + 1) ip' output' log')
      else Inr (ip, output, log))"
  by pat_completeness auto
termination
  by (relation "measure (\<lambda>(input, width, height, column, ip, output, log).
                  unat width - unat column)")
     (auto simp: word_succ word_less_nat_alt)

declare assemble_columns.simps [simp del]

text \<open>The function: the output buffer when it returns, and the log of its accesses.\<close>

definition aes_assemble_image ::
  "byte list \<Rightarrow> size_t \<Rightarrow> size_t \<Rightarrow> byte list \<Rightarrow> fault + (byte list \<times> access list)" where
  "aes_assemble_image input width height output =
     (case assemble_columns input width height 0 0 output [] of
        Inl e \<Rightarrow> Inl e
      | Inr (ip, output', log) \<Rightarrow> Inr (output', log))"

subsection \<open>Notions used in the statements about aes_assemble_image\<close>

text \<open>
  The pixel computed for image row \<open>y\<close> from the input byte \<open>b\<close>: even rows take the low
  three bits, odd rows bits 4 to 6.
\<close>

definition row_pixel :: "nat \<Rightarrow> byte \<Rightarrow> byte" where
  "row_pixel y b = (if even y then even_row_pixel b else odd_row_pixel b)"

text \<open>
  The accesses of one turn of the inner loop, for column \<open>c\<close>, row pair \<open>r\<close> (rows
  \<open>2 * r\<close> and \<open>2 * r + 1\<close>) and input index \<open>k\<close>, in an image \<open>W\<close> pixels wide.
\<close>

definition pair_accesses :: "byte list \<Rightarrow> nat \<Rightarrow> nat \<Rightarrow> nat \<Rightarrow> nat \<Rightarrow> access list" where
  "pair_accesses input W c r k =
     [Rd k, Wr (W * (2 * r) + c) (even_row_pixel (input ! k)),
            Wr (W * (2 * r + 1) + c) (odd_row_pixel (input ! k))]"


section \<open>aes_write_regv\<close>

text \<open>
  Modelled from the spec: \<^verbatim>\<open>struct aes_regwrite\<close> is declared in \<^verbatim>\<open>aeslib.h\<close>, which is
  not among the sources. The spec: a RegisterWrite is a pair (register: 8-bit identifier,
  value: 8-bit payload); register 0 is the barrier.
\<close>

record aes_regwrite =
  reg :: byte
  "value" :: byte

text \<open>
  Modelled from the spec: the error numbers of \<^verbatim>\<open>errno.h\<close>, with their Linux values. The
  spec names \<^verbatim>\<open>-EIO\<close> and \<^verbatim>\<open>-EPROTO\<close> as negative status codes.
\<close>

definition EIO :: int where
  "EIO = 5"

definition EPROTO :: int where
  "EPROTO = 71"

definition MAX_REGWRITES_PER_REQUEST :: uint32 where
  "MAX_REGWRITES_PER_REQUEST = 16"

text \<open>
  Modelled from the spec: the completion status of a transfer, \<^verbatim>\<open>enum libusb_urb_cb_status\<close>
  of libusb, with \<^verbatim>\<open>FP_URB_COMPLETED\<close> from \<^verbatim>\<open>fp_internal.h\<close>. The spec: a status
  (ok / error / canceled).
\<close>

datatype libusb_urb_cb_status = FP_URB_COMPLETED | URB_ERROR | URB_CANCELLED

text \<open>
  \<^verbatim>\<open>struct write_regv_data\<close>. The fields \<^verbatim>\<open>imgdev\<close>, \<^verbatim>\<open>callback\<close> and \<^verbatim>\<open>user_data\<close> are
  handed through unchanged; an invocation of the callback is an event of the trace below.
\<close>

record write_regv_data =
  num_regs :: uint32
  regs :: "aes_regwrite list"
  offset :: uint32

text \<open>
  What an operation does, in program order: a transfer accepted by the transport, with the
  index \<^verbatim>\<open>offset\<close> of its first register write, their number \<^verbatim>\<open>num\<close> and the bytes
  \<^verbatim>\<open>data\<close>; a transfer the transport refused, with the same; a completion delivered to
  \<^verbatim>\<open>write_regv_trf_complete\<close> with status, requested and actual length; an invocation of
  the user's callback with its status; an assignment to \<^verbatim>\<open>wdata->offset\<close>.
\<close>

datatype event =
    Transfer nat nat "byte list"
  | Rejected nat nat "byte list"
  | Completed libusb_urb_cb_status int int
  | Callback int
  | CursorSet uint32

text \<open>
  Modelled from the spec: the transport (libusb). Submitting a bulk transfer gives a handle or
  fails, and the completion function is called once for a submitted transfer, with a status
  and the actual length. Both answers are those of the environment, for the \<open>k\<close>-th
  submission of the operation and the bytes submitted.
\<close>

record transport =
  accepts :: "nat \<Rightarrow> byte list \<Rightarrow> bool"
  completes :: "nat \<Rightarrow> byte list \<Rightarrow> libusb_urb_cb_status \<times> int"

text \<open>
  \<^verbatim>\<open>wdata->regs[i]\<close> for an index of type \<^verbatim>\<open>int\<close> or \<^verbatim>\<open>unsigned int\<close>. A read outside the
  array is undefined behaviour; the model stops with \<open>None\<close>.
\<close>

definition regs_at :: "aes_regwrite list \<Rightarrow> int \<Rightarrow> aes_regwrite option" where
  "regs_at rs i = (if 0 \<le> i \<and> i < int (length rs) then Some (rs ! nat i) else None)"

text \<open>The completion handler: the status it reports to the callback, or that it continues.\<close>

datatype completion_action = InvokeCallback int | Continue

definition write_regv_trf_complete ::
  "libusb_urb_cb_status \<Rightarrow> int \<Rightarrow> int \<Rightarrow> completion_action" where
  "write_regv_trf_complete status rqlength actual_length =
     (if status \<noteq> FP_URB_COMPLETED then InvokeCallback (- EIO)
      else if rqlength \<noteq> actual_length then InvokeCallback (- EPROTO)
      else Continue)"

text \<open>
  The loop of \<^verbatim>\<open>do_write_regv\<close>, \<^verbatim>\<open>for (i = offset; i < offset + num; i++)\<close>, entered at \<open>i\<close>
  with \<open>bound = offset + num\<close>. The buffer is filled from its start, two bytes a turn, so
  \<^verbatim>\<open>data_offset\<close> is the length of \<open>data\<close>.
\<close>

function pack_regs ::
  "aes_regwrite list \<Rightarrow> uint32 \<Rightarrow> uint32 \<Rightarrow> byte list \<Rightarrow> byte list option" where
  "pack_regs rs i bound data =
     (if i < bound then
        (case regs_at rs (uint i) of
           None \<Rightarrow> None
         | Some regwrite \<Rightarrow> pack_regs rs (i + 1) bound (data @ [reg regwrite, value regwrite]))
      else Some data)"
  by pat_completeness auto
termination
  by (relation "measure (\<lambda>(rs, i, bound, data). unat bound - unat i)")
     (auto simp: word_succ word_less_nat_alt)

declare pack_regs.simps [simp del]

text \<open>
  The transfer in flight after a submission: \<^verbatim>\<open>msg.data\<close> and \<^verbatim>\<open>msg.length\<close>. The length is
  \<^verbatim>\<open>alloc_size\<close>, a \<^verbatim>\<open>size_t\<close> made from the \<^verbatim>\<open>unsigned int\<close> product \<^verbatim>\<open>num * 2\<close>; the
  completion handler receives it as the \<^verbatim>\<open>int\<close> \<^verbatim>\<open>rqlength\<close>.
\<close>

record urb =
  urb_data :: "byte list"
  urb_length :: int

text \<open>
  \<^verbatim>\<open>do_write_regv\<close>: the value returned, the events, and the transfer in flight if the
  submission was accepted. \<open>submit\<close> is the transport's answer to this submission.
\<close>

definition do_write_regv ::
  "(byte list \<Rightarrow> bool) \<Rightarrow> write_regv_data \<Rightarrow> uint32
     \<Rightarrow> (int \<times> event list \<times> urb option) option" where
  "do_write_regv submit wdata upper_bound =
     (let offs = offset wdata;
          num = upper_bound - offs + 1;
          alloc_size = (ucast (num * 2) :: size_t)
      in case pack_regs (regs wdata) offs (offs + num) [] of
           None \<Rightarrow> None
         | Some data \<Rightarrow>
             if submit data
             then Some (0, [Transfer (unat offs) (unat num) data],
                        Some \<lparr>urb_data = data, urb_length = sint (ucast alloc_size :: uint32)\<rparr>)
             else Some (- EIO, [Rejected (unat offs) (unat num) data], None))"

text \<open>
  The first loop of \<^verbatim>\<open>continue_write_regv\<close>, entered at \<open>offs\<close>: all registers are written,
  or the loop leaves at a register write that is not a barrier.
\<close>

datatype skip_result = AllWritten | NonZeroAt uint32 | SkipFault

function skip_zeros :: "write_regv_data \<Rightarrow> uint32 \<Rightarrow> skip_result" where
  "skip_zeros wdata offs =
     (if offs \<ge> num_regs wdata then AllWritten
      else (case regs_at (regs wdata) (uint offs) of
              None \<Rightarrow> SkipFault
            | Some regwrite \<Rightarrow>
                if reg regwrite \<noteq> 0 then NonZeroAt offs else skip_zeros wdata (offs + 1)))"
  by pat_completeness auto
termination
  by (relation "measure (\<lambda>(wdata, offs). unat (num_regs wdata) - unat offs)")
     (auto simp: word_succ word_less_nat_alt not_le)

declare skip_zeros.simps [simp del]

text \<open>
  The second loop, \<^verbatim>\<open>for (i = offset; i <= upper_bound; i++)\<close>, entered at \<open>i\<close>. The counter
  is an \<^verbatim>\<open>int\<close>: it is compared with the \<^verbatim>\<open>unsigned int\<close> bound as an unsigned value and
  indexes the array as a signed one. The result is the bound the loop leaves.
\<close>

function find_upper_bound :: "aes_regwrite list \<Rightarrow> uint32 \<Rightarrow> uint32 \<Rightarrow> uint32 option" where
  "find_upper_bound rs i upper_bound =
     (if i \<le> upper_bound then
        (case regs_at rs (sint i) of
           None \<Rightarrow> None
         | Some regwrite \<Rightarrow>
             if reg regwrite = 0 then Some (i - 1)
             else find_upper_bound rs (i + 1) upper_bound)
      else Some upper_bound)"
  by pat_completeness auto
termination
proof (relation "measure (\<lambda>(rs, i, upper_bound). nat (2147483648 - uint i))")
  show "wf (measure (\<lambda>(rs, i, upper_bound). nat (2147483648 - uint i)))"
    by simp
next
  fix rs :: "aes_regwrite list" and i upper_bound :: uint32 and regwrite
  assume "regs_at rs (sint i) = Some regwrite"
  then have "0 \<le> sint i"
    by (simp add: regs_at_def split: if_splits)
  then have lt: "uint i < 2147483648"
    by (rule sint_nonneg)
  then have "uint (i + 1) = uint i + 1"
    by (rule uint_succ32)
  with lt have "nat (2147483648 - uint (i + 1)) < nat (2147483648 - uint i)"
    by linarith
  then show "((rs, i + 1, upper_bound), (rs, i, upper_bound))
                  \<in> measure (\<lambda>(rs, i, upper_bound). nat (2147483648 - uint i))"
    by (simp only: in_measure prod.case)
qed

declare find_upper_bound.simps [simp del]

text \<open>
  \<^verbatim>\<open>continue_write_regv\<close>: the events, the session as the call leaves it, and the transfer in
  flight, if any. \<^verbatim>\<open>MIN\<close> is the macro of glib.
\<close>

definition continue_write_regv ::
  "(byte list \<Rightarrow> bool) \<Rightarrow> write_regv_data
     \<Rightarrow> (event list \<times> write_regv_data \<times> urb option) option" where
  "continue_write_regv submit wdata =
     (case skip_zeros wdata (offset wdata) of
        SkipFault \<Rightarrow> None
      | AllWritten \<Rightarrow> Some ([Callback 0], wdata, None)
      | NonZeroAt offs \<Rightarrow>
          (let wdata1 = wdata\<lparr>offset := offs\<rparr>;
               regs_remaining = num_regs wdata1 - offs;
               limit = (if regs_remaining < MAX_REGWRITES_PER_REQUEST then regs_remaining
                        else MAX_REGWRITES_PER_REQUEST);
               upper_bound = offs + limit - 1
           in case find_upper_bound (regs wdata1) offs upper_bound of
                None \<Rightarrow> None
              | Some upper_bound' \<Rightarrow>
                  (case do_write_regv submit wdata1 upper_bound' of
                     None \<Rightarrow> None
                   | Some (r, evs, u) \<Rightarrow>
                       if r < 0
                       then Some (CursorSet offs # evs @ [Callback r], wdata1, u)
                       else Some (CursorSet offs # evs @ [CursorSet (upper_bound' + 1)],
                                  wdata1\<lparr>offset := upper_bound' + 1\<rparr>, u))))"

lemma uint_succ: "i < n \<Longrightarrow> uint (i + 1) = uint i + 1" for i :: "'a::len word"
proof -
  assume "i < n"
  then have a: "uint i < uint n"
    by (simp add: word_less_def)
  have b: "uint n < 2 ^ LENGTH('a)"
    by (rule uint_lt2p)
  from a b have "uint i + 1 < 2 ^ LENGTH('a)"
    by linarith
  then have "uint i + uint (1 :: 'a word) < 2 ^ LENGTH('a)"
    by simp
  then have "uint (i + 1) = uint i + uint (1 :: 'a word)"
    by (simp only: uint_add_lem)
  then show ?thesis
    by simp
qed

lemma uint_pred: "1 \<le> uint i \<Longrightarrow> uint (i - 1) = uint i - 1" for i :: "'a::len word"
proof -
  assume "1 \<le> uint i"
  then have "uint (1 :: 'a word) \<le> uint i"
    by simp
  then have "uint (i - 1) = uint i - uint (1 :: 'a word)"
    by (simp only: uint_sub_lem)
  then show ?thesis
    by simp
qed

lemma skip_zeros_NonZeroAt:
  "skip_zeros wdata offs = NonZeroAt o' \<Longrightarrow>
     offs \<le> o' \<and> o' < num_regs wdata \<and>
     (\<exists>rw. regs_at (regs wdata) (uint o') = Some rw \<and> reg rw \<noteq> 0)"
proof (induction wdata offs rule: skip_zeros.induct)
  case (1 wdata offs)
  have nle: "\<not> num_regs wdata \<le> offs"
    using "1.prems" by (subst (asm) skip_zeros.simps) (simp split: if_splits)
  then have lt: "offs < num_regs wdata" by simp
  from "1.prems" nle obtain rw where rw: "regs_at (regs wdata) (uint offs) = Some rw"
    by (subst (asm) skip_zeros.simps) (simp split: option.splits)
  have unf: "skip_zeros wdata offs =
             (if reg rw \<noteq> 0 then NonZeroAt offs else skip_zeros wdata (offs + 1))"
    using nle rw by (subst skip_zeros.simps) simp
  show ?case
  proof (cases "reg rw \<noteq> 0")
    case True
    with "1.prems" unf have "o' = offs" by simp
    with lt rw True show ?thesis by simp
  next
    case False
    with "1.prems" unf have rec: "skip_zeros wdata (offs + 1) = NonZeroAt o'" by simp
    from "1.IH" [OF nle rw _ rec] False
    have ih: "offs + 1 \<le> o' \<and> o' < num_regs wdata \<and>
              (\<exists>rw. regs_at (regs wdata) (uint o') = Some rw \<and> reg rw \<noteq> 0)"
      by simp
    have "uint (offs + 1) = uint offs + 1" using lt by (rule uint_succ)
    with ih have "offs \<le> o'" by (simp add: word_le_def)
    with ih show ?thesis by simp
  qed
qed

lemma find_upper_bound_range:
  "find_upper_bound rs i ub0 = Some ub \<Longrightarrow> 1 \<le> uint i \<Longrightarrow> uint i \<le> uint ub0 + 1 \<Longrightarrow>
     uint i \<le> uint ub + 1 \<and> uint ub \<le> uint ub0"
proof (induction rs i ub0 rule: find_upper_bound.induct)
  case (1 rs i ub0)
  show ?case
  proof (cases "i \<le> ub0")
    case False
    then have "find_upper_bound rs i ub0 = Some ub0"
      by (subst find_upper_bound.simps) simp
    with "1.prems" show ?thesis by simp
  next
    case True
    with "1.prems"(1) obtain rw where rw: "regs_at rs (sint i) = Some rw"
      by (subst (asm) find_upper_bound.simps) (simp split: option.splits)
    have unf: "find_upper_bound rs i ub0 =
               (if reg rw = 0 then Some (i - 1) else find_upper_bound rs (i + 1) ub0)"
      using True rw by (subst find_upper_bound.simps) simp
    show ?thesis
    proof (cases "reg rw = 0")
      case z: True
      with "1.prems"(1) unf have "ub = i - 1" by simp
      then have "uint ub = uint i - 1" using uint_pred [OF "1.prems"(2)] by simp
      moreover have "uint i \<le> uint ub0" using True by (simp add: word_le_def)
      ultimately show ?thesis by simp
    next
      case nz: False
      with "1.prems"(1) unf have rec: "find_upper_bound rs (i + 1) ub0 = Some ub" by simp
      from rw have "0 \<le> sint i" by (simp add: regs_at_def split: if_splits)
      then have "uint i < 2147483648" by (rule sint_nonneg)
      then have s: "uint (i + 1) = uint i + 1" by (rule uint_succ32)
      have le: "uint i \<le> uint ub0" using True by (simp add: word_le_def)
      from "1.IH" [OF True rw nz rec] s le "1.prems"(2)
      show ?thesis by simp
    qed
  qed
qed

lemma do_write_regv_in_flight:
  "do_write_regv submit wdata ub = Some (r, evs, Some u) \<Longrightarrow> r = 0"
  by (auto simp: do_write_regv_def Let_def split: option.splits if_splits)

lemma upper_bound_window:
  fixes offs n :: uint32
  assumes lt: "offs < n"
  defines "limit \<equiv> (if n - offs < MAX_REGWRITES_PER_REQUEST then n - offs
                          else MAX_REGWRITES_PER_REQUEST)"
  shows "uint (offs + limit - 1) = uint offs + uint limit - 1"
    and "1 \<le> uint limit" and "uint limit \<le> 16" and "uint offs + uint limit \<le> uint n"
proof -
  have o: "uint offs < uint n" using lt by (simp add: word_less_def)
  then have "uint offs \<le> uint n" by simp
  then have rem: "uint (n - offs) = uint n - uint offs" by (simp only: uint_sub_lem)
  show l1: "1 \<le> uint limit"
    using o rem by (simp add: limit_def MAX_REGWRITES_PER_REQUEST_def)
  show l16: "uint limit \<le> 16"
    by (simp add: limit_def MAX_REGWRITES_PER_REQUEST_def word_less_def)
  show ln: "uint offs + uint limit \<le> uint n"
    using rem by (simp add: limit_def MAX_REGWRITES_PER_REQUEST_def word_less_def)
  have "uint n < 2 ^ LENGTH(32)" by (rule uint_lt2p)
  with ln have "uint offs + uint limit < 2 ^ LENGTH(32)" by linarith
  then have a: "uint (offs + limit) = uint offs + uint limit" by (simp only: uint_add_lem)
  with l1 uint_ge_0 [of offs] have "1 \<le> uint (offs + limit)" by linarith
  then have "uint (offs + limit - 1) = uint (offs + limit) - 1" by (rule uint_pred)
  with a show "uint (offs + limit - 1) = uint offs + uint limit - 1" by simp
qed

lemma continue_write_regv_progress:
  assumes A: "continue_write_regv submit wdata = Some (evs, wdata', Some u)"
  shows "uint (offset wdata) < uint (offset wdata') \<and>
         uint (offset wdata') \<le> uint (num_regs wdata) \<and>
         num_regs wdata' = num_regs wdata \<and> regs wdata' = regs wdata"
proof -
  from A obtain offs where sk: "skip_zeros wdata (offset wdata) = NonZeroAt offs"
    by (cases "skip_zeros wdata (offset wdata)") (auto simp: continue_write_regv_def)
  define limit where "limit = (if num_regs wdata - offs < MAX_REGWRITES_PER_REQUEST
                               then num_regs wdata - offs else MAX_REGWRITES_PER_REQUEST)"
  define ub0 where "ub0 = offs + limit - 1"
  from A sk obtain ub where fu: "find_upper_bound (regs wdata) offs ub0 = Some ub"
    by (cases "find_upper_bound (regs wdata) offs ub0")
       (auto simp: continue_write_regv_def Let_def limit_def ub0_def cong: if_cong)
  from A sk fu obtain r evs' where
    dw: "do_write_regv submit (wdata\<lparr>offset := offs\<rparr>) ub = Some (r, evs', Some u)"
    and w': "wdata' = (if r < 0 then wdata\<lparr>offset := offs\<rparr>
                      else wdata\<lparr>offset := ub + 1\<rparr>)"
    by (cases "do_write_regv submit (wdata\<lparr>offset := offs\<rparr>) ub")
       (auto simp: continue_write_regv_def Let_def limit_def ub0_def split: if_splits cong: if_cong)
  from dw have "r = 0" by (rule do_write_regv_in_flight)
  with w' have w: "wdata' = wdata\<lparr>offset := ub + 1\<rparr>" by simp
  from skip_zeros_NonZeroAt [OF sk] obtain rw where
    le: "offset wdata \<le> offs" and lt: "offs < num_regs wdata"
    and rw: "regs_at (regs wdata) (uint offs) = Some rw" and nz: "reg rw \<noteq> 0"
    by blast
  note win = upper_bound_window [OF lt, folded limit_def]
  have ub0: "uint ub0 = uint offs + uint limit - 1" unfolding ub0_def by (rule win(1))
  then have ole: "offs \<le> ub0" using win(2) by (simp add: word_le_def)
  from fu ole obtain rw' where rw': "regs_at (regs wdata) (sint offs) = Some rw'"
    by (subst (asm) find_upper_bound.simps) (simp split: option.splits)
  then have "0 \<le> sint offs" by (simp add: regs_at_def split: if_splits)
  then have small: "uint offs < 2147483648" by (rule sint_nonneg)
  then have "sint offs = uint offs" by (rule sint_small)
  with rw rw' have "rw' = rw" by simp
  with fu ole rw' nz have rec: "find_upper_bound (regs wdata) (offs + 1) ub0 = Some ub"
    by (subst (asm) find_upper_bound.simps) simp
  have s: "uint (offs + 1) = uint offs + 1" using small by (rule uint_succ32)
  have "uint (offs + 1) \<le> uint ub + 1 \<and> uint ub \<le> uint ub0"
    using rec
  proof (rule find_upper_bound_range)
    show "1 \<le> uint (offs + 1)" using s uint_ge_0 [of offs] by linarith
    show "uint (offs + 1) \<le> uint ub0 + 1" using s ub0 win(2) by linarith
  qed
  with s have r1: "uint offs \<le> uint ub" and r2: "uint ub \<le> uint ub0" by simp_all
  from r2 ub0 win(4) have "uint ub < uint (num_regs wdata)" by linarith
  then have ublt: "ub < num_regs wdata" by (simp add: word_less_def)
  then have s2: "uint (ub + 1) = uint ub + 1" by (rule uint_succ)
  have "uint (offset wdata) \<le> uint offs" using le by (simp add: word_le_def)
  with r1 s2 have "uint (offset wdata) < uint (ub + 1)" by linarith
  moreover have "uint (ub + 1) \<le> uint (num_regs wdata)"
    using s2 \<open>uint ub < uint (num_regs wdata)\<close> by linarith
  ultimately show ?thesis by (simp add: w)
qed

function run_regv :: "transport \<Rightarrow> nat \<Rightarrow> write_regv_data \<Rightarrow> event list option" where
  "run_regv tp k wdata =
     (case continue_write_regv (accepts tp k) wdata of
        None \<Rightarrow> None
      | Some (evs, wdata', None) \<Rightarrow> Some evs
      | Some (evs, wdata', Some u) \<Rightarrow>
          (case completes tp k (urb_data u) of
             (status, actual_length) \<Rightarrow>
               (case write_regv_trf_complete status (urb_length u) actual_length of
                  InvokeCallback st \<Rightarrow>
                    Some (evs @ [Completed status (urb_length u) actual_length, Callback st])
                | Continue \<Rightarrow>
                    (case run_regv tp (k + 1) wdata' of
                       None \<Rightarrow> None
                     | Some rest \<Rightarrow>
                         Some (evs @ Completed status (urb_length u) actual_length # rest)))))"
  by pat_completeness auto
termination
proof (relation "measure (\<lambda>(tp, k, wdata). nat (uint (num_regs wdata) - uint (offset wdata)))")
  show "wf (measure (\<lambda>(tp, k, wdata). nat (uint (num_regs wdata) - uint (offset wdata))))"
    by simp
next
  fix tp :: transport and k :: nat and wdata wdata' :: write_regv_data
    and evs :: "event list" and u :: urb and x2 y ya
  assume "continue_write_regv (accepts tp k) wdata = Some x2" "(evs, y) = x2"
    "(wdata', ya) = y" "ya = Some u"
  then have "continue_write_regv (accepts tp k) wdata = Some (evs, wdata', Some u)"
    by simp
  from continue_write_regv_progress [OF this]
  have "nat (uint (num_regs wdata') - uint (offset wdata'))
          < nat (uint (num_regs wdata) - uint (offset wdata))"
    by simp
  then show "((tp, k + 1, wdata'), (tp, k, wdata))
          \<in> measure (\<lambda>(tp, k, wdata). nat (uint (num_regs wdata) - uint (offset wdata)))"
    by simp
qed

declare run_regv.simps [simp del]

definition aes_write_regv ::
  "transport \<Rightarrow> aes_regwrite list \<Rightarrow> uint32 \<Rightarrow> event list option" where
  "aes_write_regv tp rs n =
     (let wdata = \<lparr>num_regs = n, regs = rs, offset = 0\<rparr>
      in case run_regv tp 0 wdata of
           None \<Rightarrow> None
         | Some evs \<Rightarrow> Some (CursorSet (offset wdata) # evs))"

definition reliable :: transport where
  "reliable = \<lparr>accepts = (\<lambda>k data. True),
               completes = (\<lambda>k data. (FP_URB_COMPLETED, int (length data)))\<rparr>"

subsection \<open>Notions used in the statements about aes_write_regv\<close>

text \<open>The bytes of a run of register writes: register and value, alternating.\<close>

definition encode :: "aes_regwrite list \<Rightarrow> byte list" where
  "encode rs = concat (map (\<lambda>r. [reg r, value r]) rs)"

text \<open>
  The transfers submitted in a trace, accepted or refused, each with the index of its first
  register write, the number of its writes and its bytes; and the statuses of the callbacks.
\<close>

fun submissions :: "event list \<Rightarrow> (nat \<times> nat \<times> byte list) list" where
  "submissions [] = []"
| "submissions (Transfer off num data # es) = (off, num, data) # submissions es"
| "submissions (Rejected off num data # es) = (off, num, data) # submissions es"
| "submissions (e # es) = submissions es"

fun callbacks :: "event list \<Rightarrow> int list" where
  "callbacks [] = []"
| "callbacks (Callback st # es) = st # callbacks es"
| "callbacks (e # es) = callbacks es"

text \<open>The completions delivered in a trace: status, requested length, actual length.\<close>

fun completions :: "event list \<Rightarrow> (libusb_urb_cb_status \<times> int \<times> int) list" where
  "completions [] = []"
| "completions (Completed status rqlength actual_length # es) =
     (status, rqlength, actual_length) # completions es"
| "completions (e # es) = completions es"

text \<open>
  An event that is not a failure: a refused submission is one, and so is a completion with
  a status other than completed or with an actual length other than the requested one.
\<close>

fun succeeds :: "event \<Rightarrow> bool" where
  "succeeds (Rejected off num data) = False"
| "succeeds (Completed status rqlength actual_length) =
     (status = FP_URB_COMPLETED \<and> rqlength = actual_length)"
| "succeeds e = True"

text \<open>
  The batches of a sequence, in list terms, for the remaining writes \<open>rest\<close> of a sequence
  that begin at index \<open>off\<close>: the barriers in front are skipped; the batch is the longest
  run without a barrier among the next 16 writes. The function gives the trace of the
  operation from there, for the \<open>k\<close>-th submission onwards; the proofs relate it to
  \<open>run_regv\<close> and reason on it.
\<close>

function batch_run :: "transport \<Rightarrow> nat \<Rightarrow> nat \<Rightarrow> aes_regwrite list \<Rightarrow> event list" where
  "batch_run tp k off rest =
     (let off1 = off + length (takeWhile (\<lambda>r. reg r = 0) rest);
          rest1 = dropWhile (\<lambda>r. reg r = 0) rest
      in if rest1 = [] then [Callback 0]
         else
           (let batch = takeWhile (\<lambda>r. reg r \<noteq> 0) (take 16 rest1);
                data = encode batch;
                off2 = off1 + length batch
            in if accepts tp k data
               then CursorSet (of_nat off1) # Transfer off1 (length batch) data #
                    CursorSet (of_nat off2) #
                    (case completes tp k data of
                       (status, actual_length) \<Rightarrow>
                         Completed status (int (length data)) actual_length #
                         (case write_regv_trf_complete status (int (length data)) actual_length of
                            InvokeCallback st \<Rightarrow> [Callback st]
                          | Continue \<Rightarrow>
                              batch_run tp (k + 1) off2 (drop (length batch) rest1)))
               else [CursorSet (of_nat off1), Rejected off1 (length batch) data, Callback (- EIO)]))"
  by pat_completeness auto
termination
proof (relation "measure (\<lambda>(tp, k, off, rest). length rest)")
  show "wf (measure (\<lambda>(tp, k, off, rest). length rest))"
    by simp
next
  fix tp :: transport and k off off2 :: nat and rest rest1 batch :: "aes_regwrite list"
  assume r1: "rest1 = dropWhile (\<lambda>r. reg r = 0) rest" and ne: "rest1 \<noteq> []"
    and b: "batch = takeWhile (\<lambda>r. reg r \<noteq> 0) (take 16 rest1)"
  from ne obtain x xs where c: "rest1 = x # xs"
    by (cases rest1) simp_all
  with r1 have "dropWhile (\<lambda>r. reg r = 0) rest = x # xs"
    by simp
  then have "reg x \<noteq> 0"
    by (simp add: dropWhile_eq_Cons_conv)
  with b c have pos: "0 < length batch"
    by simp
  have le: "length rest1 \<le> length rest"
    unfolding r1 by (rule length_dropWhile_le)
  have "0 < length rest1"
    using ne by simp
  with pos le have "length rest1 - length batch < length rest"
    by linarith
  then have "length (drop (length batch) rest1) < length rest"
    by simp
  then show "((tp, k + 1, off2, drop (length batch) rest1), (tp, k, off, rest))
             \<in> measure (\<lambda>(tp, k, off, rest). length rest)"
    by simp
qed

declare batch_run.simps [simp del]

text \<open>
  How an operation ends, for the events \<open>pre\<close> before its callback and the status \<open>st\<close>
  of the callback: without a failure and with status 0, or with one failure, which is the
  last event before the callback: a refused submission or a completion that reports a
  transport failure, with \<^verbatim>\<open>-EIO\<close>, or a completion of another length than requested, with
  \<^verbatim>\<open>-EPROTO\<close>.
\<close>

definition outcome :: "event list \<Rightarrow> int \<Rightarrow> bool" where
  "outcome pre st \<longleftrightarrow>
     (list_all succeeds pre \<and> st = 0) \<or>
     (\<exists>pre' off num data. list_all succeeds pre' \<and> pre = pre' @ [Rejected off num data] \<and>
        st = - EIO) \<or>
     (\<exists>pre' status rq al. list_all succeeds pre' \<and> pre = pre' @ [Completed status rq al] \<and>
        status \<noteq> FP_URB_COMPLETED \<and> st = - EIO) \<or>
     (\<exists>pre' rq al. list_all succeeds pre' \<and> pre = pre' @ [Completed FP_URB_COMPLETED rq al] \<and>
        rq \<noteq> al \<and> st = - EPROTO)"

section \<open>Properties of aes_assemble_image\<close>

subsection \<open>Index arithmetic\<close>

lemma unat_index:
  fixes width row column :: size_t
  assumes "unat width * unat height < 2 ^ 64" "unat column < unat width" "unat row < unat height"
  shows "unat (width * row + column) = unat width * unat row + unat column"
proof -
  have "unat width * unat row + unat column < unat width * unat row + unat width"
    using assms(2) by simp
  also have "\<dots> = unat width * Suc (unat row)" by simp
  also have "\<dots> \<le> unat width * unat height"
    using assms(3) by (intro mult_le_mono2) simp
  finally have lt: "unat width * unat row + unat column < 2 ^ 64" using assms(1) by simp
  then have "unat width * unat row < 2 ^ LENGTH(64)" by simp
  then have m: "unat (width * row) = unat width * unat row"
    by (simp only: unat_mult_lem)
  from lt m have "unat (width * row) + unat column < 2 ^ LENGTH(64)" by simp
  then have "unat (width * row + column) = unat (width * row) + unat column"
    by (simp only: unat_add_lem)
  with m show ?thesis by simp
qed

lemma unat_plus_small:
  fixes row height :: size_t
  assumes "unat row + k \<le> unat height" "k < 2 ^ 64"
  shows "unat (row + of_nat k) = unat row + k"
proof -
  have "unat (height :: size_t) < 2 ^ LENGTH(64)" by (rule unsigned_less)
  have k: "unat (of_nat k :: size_t) = k"
    using assms(2) by (simp add: unat_of_nat)
  have "unat row + unat (of_nat k :: size_t) < 2 ^ LENGTH(64)"
    using assms(1) k \<open>unat height < 2 ^ LENGTH(64)\<close> by simp
  then have "unat (row + of_nat k) = unat row + unat (of_nat k :: size_t)"
    by (simp only: unat_add_lem)
  with k show ?thesis by simp
qed

lemma idx_eq: "c < W \<Longrightarrow> (i = W * y + c) = (i mod W = c \<and> i div W = y)" for i :: nat
proof
  assume "c < W" "i = W * y + c"
  then show "i mod W = c \<and> i div W = y" by simp
next
  assume "c < W" "i mod W = c \<and> i div W = y"
  then show "i = W * y + c" using div_mult_mod_eq [of i W] by (simp add: mult.commute)
qed

lemma two_updates_nth:
  fixes i :: nat
  assumes "c < W" "i < length xs" "W * y + c < length xs" "W * (y + 1) + c < length xs"
  shows "xs[W * y + c := a, W * (y + 1) + c := b] ! i =
           (if i mod W = c \<and> i div W = y + 1 then b
            else if i mod W = c \<and> i div W = y then a else xs ! i)"
proof -
  define i1 where "i1 = W * y + c"
  define i2 where "i2 = W * (y + 1) + c"
  have e1: "(i1 = i) = (i mod W = c \<and> i div W = y)"
    unfolding i1_def using idx_eq [OF assms(1), of i y] by (simp only: eq_commute)
  have e2: "(i2 = i) = (i mod W = c \<and> i div W = y + 1)"
    unfolding i2_def using idx_eq [OF assms(1), of i "y + 1"] by (simp only: eq_commute)
  have l1: "i1 < length xs" and l2: "i2 < length xs"
    using assms by (simp_all only: i1_def i2_def)
  have "xs[i1 := a, i2 := b] ! i = (if i2 = i then b else if i1 = i then a else xs ! i)"
    using l1 l2 assms(2) by (simp add: nth_list_update)
  then show ?thesis
    unfolding e1 e2 by (simp only: i1_def i2_def)
qed

lemma assemble_rows_correct:
  fixes width height column row :: size_t
  assumes bound: "unat width * unat height < 2 ^ 64"
      and ht: "unat height = 2 * H"
      and col: "unat column < unat width"
  shows "unat row = 2 * r \<Longrightarrow> r + n = H \<Longrightarrow> ip + n \<le> length input \<Longrightarrow>
         length obuf = unat width * unat height \<Longrightarrow>
         \<exists>out'. assemble_rows input width height column row ip obuf lg =
           Inr (ip + n, out', lg @ concat (map (\<lambda>j. pair_accesses input (unat width) (unat column) j (ip + (j - r))) [r..<H]))
         \<and> length out' = length obuf
         \<and> (\<forall>i<length obuf. out' ! i =
               (if i mod unat width = unat column \<and> 2 * r \<le> i div unat width
                then row_pixel (i div unat width) (input ! (ip + ((i div unat width) div 2 - r)))
                else obuf ! i))"
proof (induction n arbitrary: row r ip obuf lg)
  case 0
  then have "\<not> row < height" using ht by (simp add: word_less_nat_alt)
  then have run: "assemble_rows input width height column row ip obuf lg = Inr (ip, obuf, lg)"
    by (simp add: assemble_rows.simps)
  have "\<And>i. i < length obuf \<Longrightarrow> i div unat width < 2 * r"
  proof -
    fix i assume "i < length obuf"
    then have "i < unat width * (2 * r)" using 0 ht by simp
    then show "i div unat width < 2 * r"
      by (simp add: less_mult_imp_div_less mult.commute)
  qed
  then have "\<forall>i<length obuf. \<not> (2 * r \<le> i div unat width)" by (simp add: not_le)
  with run 0 show ?case by simp
next
  case (Suc n)
  let ?W = "unat width" and ?C = "unat column"
  let ?b = "input ! ip"
  from Suc.prems ht have rlt: "2 * r + 2 \<le> unat height" by simp
  then have row_lt: "row < height" using Suc.prems(1) by (simp add: word_less_nat_alt)
  have ip_lt: "ip < length input" using Suc.prems(3) by simp
  have r1: "unat (row + 1) = 2 * r + 1"
    using unat_plus_small [of row 1 height] rlt Suc.prems(1) by simp
  have r2: "unat (row + 2) = 2 * (r + 1)"
    using unat_plus_small [of row 2 height] rlt Suc.prems(1) by simp
  have i1: "unat (width * row + column) = ?W * (2 * r) + ?C"
    using unat_index [OF bound col, of row] rlt Suc.prems(1) by simp
  have i2: "unat (width * (row + 1) + column) = ?W * (2 * r + 1) + ?C"
    using unat_index [OF bound col, of "row + 1"] rlt r1 by simp
  have "?W * (2 * r) + ?C < ?W * (2 * r) + ?W" using col by simp
  also have "\<dots> = ?W * (2 * r + 1)" by simp
  finally have lt1a: "?W * (2 * r) + ?C < ?W * (2 * r + 1)" .
  also have "\<dots> \<le> ?W * unat height" using rlt by (intro mult_le_mono2) simp
  finally have lt1: "?W * (2 * r) + ?C < length obuf" using Suc.prems(4) by simp
  have "?W * (2 * r + 1) + ?C < ?W * (2 * r + 1) + ?W" using col by simp
  also have "\<dots> = ?W * (2 * r + 2)" by simp
  also have "\<dots> \<le> ?W * unat height" using rlt by (intro mult_le_mono2) simp
  finally have lt2: "?W * (2 * r + 1) + ?C < length obuf" using Suc.prems(4) by simp
  let ?out2 = "obuf[?W * (2 * r) + ?C := even_row_pixel ?b, ?W * (2 * r + 1) + ?C := odd_row_pixel ?b]"
  let ?log2 = "lg @ pair_accesses input ?W ?C r ip"
  have unfold: "assemble_rows input width height column row ip obuf lg =
                assemble_rows input width height column (row + 2) (ip + 1) ?out2 ?log2"
    using lt1 lt2
    by (subst assemble_rows.simps) (simp add: row_lt ip_lt store_def i1 i2 pair_accesses_def)
  have "\<exists>out'. assemble_rows input width height column (row + 2) (ip + 1) ?out2 ?log2 =
           Inr (ip + 1 + n, out', ?log2 @ concat (map (\<lambda>j. pair_accesses input ?W ?C j (ip + 1 + (j - (r + 1)))) [r + 1..<H]))
         \<and> length out' = length ?out2
         \<and> (\<forall>i<length ?out2. out' ! i =
               (if i mod ?W = ?C \<and> 2 * (r + 1) \<le> i div ?W
                then row_pixel (i div ?W) (input ! (ip + 1 + ((i div ?W) div 2 - (r + 1))))
                else ?out2 ! i))"
    using Suc.prems by (intro Suc.IH) (simp_all add: r2)
  then obtain out' where
    run: "assemble_rows input width height column (row + 2) (ip + 1) ?out2 ?log2 =
           Inr (ip + 1 + n, out', ?log2 @ concat (map (\<lambda>j. pair_accesses input ?W ?C j (ip + 1 + (j - (r + 1)))) [r + 1..<H]))"
    and len': "length out' = length obuf"
    and pt: "\<And>i. i < length obuf \<Longrightarrow> out' ! i =
               (if i mod ?W = ?C \<and> 2 * (r + 1) \<le> i div ?W
                then row_pixel (i div ?W) (input ! (ip + 1 + ((i div ?W) div 2 - (r + 1))))
                else ?out2 ! i)"
    by auto
  have "r < H" using Suc.prems(2) by simp
  then have upt: "[r..<H] = r # [r + 1..<H]" by (simp add: upt_conv_Cons)
  have maps: "map (\<lambda>j. pair_accesses input ?W ?C j (ip + 1 + (j - (r + 1)))) [r + 1..<H]
            = map (\<lambda>j. pair_accesses input ?W ?C j (ip + (j - r))) [r + 1..<H]"
  proof (rule map_cong)
    fix j assume "j \<in> set [r + 1..<H]"
    then have "ip + 1 + (j - (r + 1)) = ip + (j - r)" by auto
    then show "pair_accesses input ?W ?C j (ip + 1 + (j - (r + 1)))
             = pair_accesses input ?W ?C j (ip + (j - r))" by (simp only:)
  qed simp
  have logeq: "?log2 @ concat (map (\<lambda>j. pair_accesses input ?W ?C j (ip + 1 + (j - (r + 1)))) [r + 1..<H])
             = lg @ concat (map (\<lambda>j. pair_accesses input ?W ?C j (ip + (j - r))) [r..<H])"
    by (simp only: maps upt) simp
  have point: "out' ! i =
               (if i mod ?W = ?C \<and> 2 * r \<le> i div ?W
                then row_pixel (i div ?W) (input ! (ip + ((i div ?W) div 2 - r)))
                else obuf ! i)" if "i < length obuf" for i
  proof -
    define d where "d = i div ?W"
    define m where "m = (i mod ?W = ?C)"
    define v2 where "v2 = ?out2 ! i"
    have o2: "v2 = (if m \<and> d = 2 * r + 1 then odd_row_pixel ?b
                           else if m \<and> d = 2 * r then even_row_pixel ?b
                           else obuf ! i)"
      using two_updates_nth [OF col that, of "2 * r" "even_row_pixel ?b" "odd_row_pixel ?b"] lt1 lt2
      by (simp add: d_def m_def v2_def)
    have pt': "out' ! i =
               (if m \<and> 2 * (r + 1) \<le> d
                then row_pixel d (input ! (ip + 1 + (d div 2 - (r + 1))))
                else v2)"
      using pt [OF that] by (simp only: d_def m_def v2_def)
    have goal: "out' ! i = (if m \<and> 2 * r \<le> d then row_pixel d (input ! (ip + (d div 2 - r))) else obuf ! i)"
    proof (cases m)
      case False
      then show ?thesis by (simp add: pt' o2)
    next
      case True
      have "2 * (r + 1) \<le> d \<or> d = 2 * r \<or> d = 2 * r + 1 \<or> d < 2 * r"
        by arith
      then consider (hi) "2 * (r + 1) \<le> d" | (ev) "d = 2 * r" | (od) "d = 2 * r + 1" | (lo) "d < 2 * r"
        by blast
      then show ?thesis
      proof cases
        case hi
        then have "ip + 1 + (d div 2 - (r + 1)) = ip + (d div 2 - r)" by presburger
        with hi True show ?thesis by (simp add: pt')
      next
        case ev
        then show ?thesis using True by (simp add: pt' o2 row_pixel_def)
      next
        case od
        then show ?thesis using True by (simp add: pt' o2 row_pixel_def)
      next
        case lo
        then show ?thesis using True by (simp add: pt' o2)
      qed
    qed
    then show ?thesis by (simp only: d_def m_def)
  qed
  have final: "assemble_rows input width height column row ip obuf lg =
                 Inr (ip + 1 + n, out', lg @ concat (map (\<lambda>j. pair_accesses input ?W ?C j (ip + (j - r))) [r..<H]))"
    by (simp only: unfold run logeq)
  show ?case
    using final len' point by (intro exI [of _ out']) simp
qed

lemma assemble_columns_correct:
  fixes width height column :: size_t
  assumes bound: "unat width * unat height < 2 ^ 64"
      and ht: "unat height = 2 * H"
  shows "unat column + n = unat width \<Longrightarrow> ip + n * H \<le> length input \<Longrightarrow>
         length obuf = unat width * unat height \<Longrightarrow>
         \<exists>out'. assemble_columns input width height column ip obuf lg =
           Inr (ip + n * H, out',
                lg @ concat (map (\<lambda>c. concat (map (\<lambda>j. pair_accesses input (unat width) c j
                                    (ip + (c - unat column) * H + j)) [0..<H])) [unat column..<unat width]))
         \<and> length out' = length obuf
         \<and> (\<forall>i<length obuf. out' ! i =
               (if unat column \<le> i mod unat width
                then row_pixel (i div unat width)
                       (input ! (ip + (i mod unat width - unat column) * H + (i div unat width) div 2))
                else obuf ! i))"
proof (induction n arbitrary: column ip obuf lg)
  case 0
  then have "\<not> column < width" by (simp add: word_less_nat_alt)
  then have run: "assemble_columns input width height column ip obuf lg = Inr (ip, obuf, lg)"
    by (simp add: assemble_columns.simps)
  have "\<not> unat column \<le> i mod unat width" if "i < length obuf" for i
  proof -
    have "0 < unat width" using that 0 by (cases "unat width") simp_all
    then have "i mod unat width < unat width" by simp
    then show ?thesis using 0 by simp
  qed
  with run 0 show ?case by simp
next
  case (Suc n)
  let ?W = "unat width" and ?C = "unat column"
  have col: "?C < ?W" using Suc.prems(1) by simp
  then have col_lt: "column < width" by (simp add: word_less_nat_alt)
  have c1: "unat (column + 1) = ?C + 1" using word_succ [OF col_lt] .
  have "H \<le> Suc n * H" by simp
  then have inp: "ip + H \<le> length input" using Suc.prems(2) by linarith
  have "\<exists>out1. assemble_rows input width height column 0 ip obuf lg =
           Inr (ip + H, out1, lg @ concat (map (\<lambda>j. pair_accesses input ?W ?C j (ip + (j - 0))) [0..<H]))
         \<and> length out1 = length obuf
         \<and> (\<forall>i<length obuf. out1 ! i =
               (if i mod ?W = ?C \<and> 2 * 0 \<le> i div ?W
                then row_pixel (i div ?W) (input ! (ip + ((i div ?W) div 2 - 0)))
                else obuf ! i))"
    using inp Suc.prems(3) by (intro assemble_rows_correct [OF bound ht col]) simp_all
  then obtain out1 where
    rows: "assemble_rows input width height column 0 ip obuf lg =
           Inr (ip + H, out1, lg @ concat (map (\<lambda>j. pair_accesses input ?W ?C j (ip + j)) [0..<H]))"
    and len1: "length out1 = length obuf"
    and pt1: "\<And>i. i < length obuf \<Longrightarrow> out1 ! i =
               (if i mod ?W = ?C then row_pixel (i div ?W) (input ! (ip + (i div ?W) div 2)) else obuf ! i)"
    by auto
  let ?lg1 = "lg @ concat (map (\<lambda>j. pair_accesses input ?W ?C j (ip + j)) [0..<H])"
  have unfold: "assemble_columns input width height column ip obuf lg =
                assemble_columns input width height (column + 1) (ip + H) out1 ?lg1"
    by (subst assemble_columns.simps) (simp add: col_lt rows)
  have "\<exists>out'. assemble_columns input width height (column + 1) (ip + H) out1 ?lg1 =
           Inr (ip + H + n * H, out',
                ?lg1 @ concat (map (\<lambda>c. concat (map (\<lambda>j. pair_accesses input ?W c j
                                    (ip + H + (c - unat (column + 1)) * H + j)) [0..<H])) [unat (column + 1)..<?W]))
         \<and> length out' = length out1
         \<and> (\<forall>i<length out1. out' ! i =
               (if unat (column + 1) \<le> i mod ?W
                then row_pixel (i div ?W)
                       (input ! (ip + H + (i mod ?W - unat (column + 1)) * H + (i div ?W) div 2))
                else out1 ! i))"
    using Suc.prems len1 by (intro Suc.IH) (simp_all add: c1)
  then obtain out' where
    run: "assemble_columns input width height (column + 1) (ip + H) out1 ?lg1 =
           Inr (ip + H + n * H, out',
                ?lg1 @ concat (map (\<lambda>c. concat (map (\<lambda>j. pair_accesses input ?W c j
                                    (ip + H + (c - (?C + 1)) * H + j)) [0..<H])) [?C + 1..<?W]))"
    and len': "length out' = length obuf"
    and pt: "\<And>i. i < length obuf \<Longrightarrow> out' ! i =
               (if ?C + 1 \<le> i mod ?W
                then row_pixel (i div ?W) (input ! (ip + H + (i mod ?W - (?C + 1)) * H + (i div ?W) div 2))
                else out1 ! i)"
    unfolding c1 len1 by auto
  have shift: "ip + H + (c - (?C + 1)) * H = ip + (c - ?C) * H" if "?C + 1 \<le> c" for c
  proof -
    from that have "c - ?C = Suc (c - (?C + 1))" by simp
    then have "(c - ?C) * H = H + (c - (?C + 1)) * H" by (simp only: mult_Suc)
    then show ?thesis by simp
  qed
  have upt: "[?C..<?W] = ?C # [?C + 1..<?W]" using col by (simp add: upt_conv_Cons)
  have maps: "map (\<lambda>c. concat (map (\<lambda>j. pair_accesses input ?W c j
                                    (ip + H + (c - (?C + 1)) * H + j)) [0..<H])) [?C + 1..<?W]
            = map (\<lambda>c. concat (map (\<lambda>j. pair_accesses input ?W c j
                                    (ip + (c - ?C) * H + j)) [0..<H])) [?C + 1..<?W]"
  proof (rule map_cong)
    fix c assume "c \<in> set [?C + 1..<?W]"
    then have "?C + 1 \<le> c" by simp
    then show "concat (map (\<lambda>j. pair_accesses input ?W c j (ip + H + (c - (?C + 1)) * H + j)) [0..<H])
             = concat (map (\<lambda>j. pair_accesses input ?W c j (ip + (c - ?C) * H + j)) [0..<H])"
      by (simp only: shift)
  qed simp
  have logeq: "?lg1 @ concat (map (\<lambda>c. concat (map (\<lambda>j. pair_accesses input ?W c j
                                    (ip + H + (c - (?C + 1)) * H + j)) [0..<H])) [?C + 1..<?W])
             = lg @ concat (map (\<lambda>c. concat (map (\<lambda>j. pair_accesses input ?W c j
                                    (ip + (c - ?C) * H + j)) [0..<H])) [?C..<?W])"
    by (simp only: maps upt) simp
  have point: "out' ! i =
               (if ?C \<le> i mod ?W
                then row_pixel (i div ?W) (input ! (ip + (i mod ?W - ?C) * H + (i div ?W) div 2))
                else obuf ! i)" if "i < length obuf" for i
  proof -
    define m where "m = i mod ?W"
    define d where "d = i div ?W"
    have p1: "out1 ! i = (if m = ?C then row_pixel d (input ! (ip + d div 2)) else obuf ! i)"
      using pt1 [OF that] by (simp only: m_def d_def)
    have p2: "out' ! i = (if ?C + 1 \<le> m then row_pixel d (input ! (ip + H + (m - (?C + 1)) * H + d div 2))
                          else out1 ! i)"
      using pt [OF that] by (simp only: m_def d_def)
    have "?C + 1 \<le> m \<or> m = ?C \<or> m < ?C" by arith
    then consider (hi) "?C + 1 \<le> m" | (eq) "m = ?C" | (lo) "m < ?C" by blast
    then have "out' ! i = (if ?C \<le> m then row_pixel d (input ! (ip + (m - ?C) * H + d div 2)) else obuf ! i)"
    proof cases
      case hi
      have "out' ! i = row_pixel d (input ! (ip + H + (m - (?C + 1)) * H + d div 2))"
        using hi by (simp only: p2 if_True)
      also have "\<dots> = row_pixel d (input ! (ip + (m - ?C) * H + d div 2))"
        by (simp only: shift [OF hi])
      finally show ?thesis using hi by simp
    next
      case eq
      then show ?thesis by (simp add: p2 p1)
    next
      case lo
      then show ?thesis by (simp add: p2 p1)
    qed
    then show ?thesis by (simp only: m_def d_def)
  qed
  have "ip + H + n * H = ip + Suc n * H" by simp
  then have final: "assemble_columns input width height column ip obuf lg =
                 Inr (ip + Suc n * H, out',
                      lg @ concat (map (\<lambda>c. concat (map (\<lambda>j. pair_accesses input ?W c j
                                    (ip + (c - ?C) * H + j)) [0..<H])) [?C..<?W]))"
    by (simp only: unfold run logeq)
  show ?case
    using final len' point by (intro exI [of _ out']) simp
qed



lemma aes_assemble_image_closed_form:
  fixes width height :: size_t
  assumes ev: "even (unat height)"
      and inp: "unat width * unat height div 2 \<le> length input"
      and len: "length obuf = unat width * unat height"
      and bound: "unat width * unat height < 2 ^ 64"
  shows "\<exists>out'. aes_assemble_image input width height obuf =
           Inr (out', concat (map (\<lambda>c. concat (map (\<lambda>j. pair_accesses input (unat width) c j
                                    (c * (unat height div 2) + j)) [0..<unat height div 2])) [0..<unat width]))
         \<and> length out' = length obuf
         \<and> (\<forall>i<length obuf. out' ! i =
                row_pixel (i div unat width)
                   (input ! ((i mod unat width) * (unat height div 2) + (i div unat width) div 2)))"
proof -
  define H where "H = unat height div 2"
  have ht: "unat height = 2 * H" using ev by (auto simp: H_def)
  have "unat width * unat height div 2 = unat width * H" by (simp add: ht)
  then have inp': "0 + unat width * H \<le> length input" using inp by simp
  have "\<exists>out'. assemble_columns input width height 0 0 obuf [] =
           Inr (0 + unat width * H, out',
                [] @ concat (map (\<lambda>c. concat (map (\<lambda>j. pair_accesses input (unat width) c j
                                    (0 + (c - unat (0 :: size_t)) * H + j)) [0..<H])) [unat (0 :: size_t)..<unat width]))
         \<and> length out' = length obuf
         \<and> (\<forall>i<length obuf. out' ! i =
               (if unat (0 :: size_t) \<le> i mod unat width
                then row_pixel (i div unat width)
                       (input ! (0 + (i mod unat width - unat (0 :: size_t)) * H + (i div unat width) div 2))
                else obuf ! i))"
    using inp' len by (intro assemble_columns_correct [OF bound ht]) simp_all
  then show ?thesis
    by (auto simp: aes_assemble_image_def H_def)
qed

lemma low_bits_range: "uint b AND 0x07 \<le> 7" "0 \<le> uint b AND 0x07"
  by (simp_all add: AND_upper2)

lemma high_bits_range: "drop_bit 4 (uint b AND 0x70) \<le> 7" "0 \<le> drop_bit 4 (uint b AND 0x70)"
proof -
  have le: "uint b AND 0x70 \<le> 0x70" by (rule AND_upper2) simp
  have "x \<le> 0x70 \<Longrightarrow> x div 2 ^ 4 \<le> 7" for x :: int by simp
  from this [OF le] have "(uint b AND 0x70) div 2 ^ 4 \<le> 7" .
  then show "drop_bit 4 (uint b AND 0x70) \<le> 7" by (simp only: drop_bit_eq_div)
  have ge: "0 \<le> uint b AND 0x70" by simp
  have "0 \<le> x \<Longrightarrow> 0 \<le> x div 2 ^ 4" for x :: int by simp
  from this [OF ge] have "0 \<le> (uint b AND 0x70) div 2 ^ 4" .
  then show "0 \<le> drop_bit 4 (uint b AND 0x70)" by (simp only: drop_bit_eq_div)
qed

lemma uint_byte_of_int: "0 \<le> k \<Longrightarrow> k < 256 \<Longrightarrow> uint (word_of_int k :: byte) = k"
  by (simp add: uint_word_of_int_eq take_bit_int_eq_self)

lemma even_row_int_range: "0 \<le> even_row_int b" "even_row_int b \<le> 252"
  using low_bits_range [of b] by (simp_all add: even_row_int_def)

lemma odd_row_int_range: "0 \<le> odd_row_int b" "odd_row_int b \<le> 252"
  using high_bits_range [of b] unfolding odd_row_int_def by linarith+

lemma uint_even_row_pixel: "uint (even_row_pixel b) = even_row_int b"
  unfolding even_row_pixel_def using even_row_int_range [of b] by (intro uint_byte_of_int) simp_all

lemma uint_odd_row_pixel: "uint (odd_row_pixel b) = odd_row_int b"
  unfolding odd_row_pixel_def using odd_row_int_range [of b] by (intro uint_byte_of_int) simp_all

lemma even_row_pixel_mask_07: "even_row_pixel (b AND 0x07) = even_row_pixel b"
  by (simp add: even_row_pixel_def even_row_int_def uint_and and.assoc)

lemma odd_row_pixel_mask_70: "odd_row_pixel (b AND 0x70) = odd_row_pixel b"
  by (simp add: odd_row_pixel_def odd_row_int_def uint_and and.assoc)

lemma even_row_pixel_mask_77: "even_row_pixel (b AND 0x77) = even_row_pixel b"
  by (simp add: even_row_pixel_def even_row_int_def uint_and and.assoc)

lemma odd_row_pixel_mask_77: "odd_row_pixel (b AND 0x77) = odd_row_pixel b"
  by (simp add: odd_row_pixel_def odd_row_int_def uint_and and.assoc)

lemma assemble_rows_mask:
  "assemble_rows (map (\<lambda>b. b AND 0x77) input) width height column row ip obuf lg =
   assemble_rows input width height column row ip obuf lg"
proof (induction input width height column row ip obuf lg rule: assemble_rows.induct)
  case (1 input width height column row ip obuf lg)
  show ?case
    apply (subst assemble_rows.simps)
    apply (subst (2) assemble_rows.simps)
    using 1 apply (auto simp: even_row_pixel_mask_77 odd_row_pixel_mask_77 split: sum.splits)
    done
qed

lemma assemble_columns_mask:
  "assemble_columns (map (\<lambda>b. b AND 0x77) input) width height column ip obuf lg =
   assemble_columns input width height column ip obuf lg"
proof (induction input width height column ip obuf lg rule: assemble_columns.induct)
  case (1 input width height column ip obuf lg)
  show ?case
    apply (subst assemble_columns.simps)
    apply (subst assemble_columns.simps [of input])
    using 1 apply (auto simp: assemble_rows_mask split: sum.splits)
    done
qed

lemma assemble_rows_values:
  assumes "assemble_rows input width height column row ip obuf lg = Inr (ip', out', lg')"
      and "\<forall>i v. Wr i v \<in> set lg \<longrightarrow> P v"
      and "\<forall>b. P (even_row_pixel b) \<and> P (odd_row_pixel b)"
  shows "\<forall>i v. Wr i v \<in> set lg' \<longrightarrow> P v"
  using assms
proof (induction input width height column row ip obuf lg rule: assemble_rows.induct)
  case (1 input width height column row ip obuf lg)
  show ?case
  proof (cases "row < height")
    case False
    with "1.prems"(1) have "lg' = lg" by (subst (asm) assemble_rows.simps) simp
    with "1.prems"(2) show ?thesis by simp
  next
    case True
    let ?b = "input ! ip"
    from "1.prems"(1) True obtain out1 out2 where
      ip: "ip < length input"
      and s1: "store obuf (width * row + column) (even_row_pixel ?b) = Inr out1"
      and s2: "store out1 (width * (row + 1) + column) (odd_row_pixel ?b) = Inr out2"
      and rec: "assemble_rows input width height column (row + 2) (ip + 1) out2
                  (lg @ [Rd ip, Wr (unat (width * row + column)) (even_row_pixel ?b),
                         Wr (unat (width * (row + 1) + column)) (odd_row_pixel ?b)])
                = Inr (ip', out', lg')"
      by (subst (asm) assemble_rows.simps) (simp split: if_splits sum.splits)
    have "\<forall>i v. Wr i v \<in> set (lg @ [Rd ip, Wr (unat (width * row + column)) (even_row_pixel ?b),
                         Wr (unat (width * (row + 1) + column)) (odd_row_pixel ?b)]) \<longrightarrow> P v"
      using "1.prems"(2,3) by auto
    then show ?thesis
      using "1.IH" [OF True ip s1 s2 rec _ "1.prems"(3)] by blast
  qed
qed

lemma assemble_columns_values:
  assumes "assemble_columns input width height column ip obuf lg = Inr (ip', out', lg')"
      and "\<forall>i v. Wr i v \<in> set lg \<longrightarrow> P v"
      and "\<forall>b. P (even_row_pixel b) \<and> P (odd_row_pixel b)"
  shows "\<forall>i v. Wr i v \<in> set lg' \<longrightarrow> P v"
  using assms
proof (induction input width height column ip obuf lg rule: assemble_columns.induct)
  case (1 input width height column ip obuf lg)
  show ?case
  proof (cases "column < width")
    case False
    with "1.prems"(1) have "lg' = lg" by (subst (asm) assemble_columns.simps) simp
    with "1.prems"(2) show ?thesis by simp
  next
    case True
    from "1.prems"(1) True obtain ip1 out1 lg1 where
      rows: "assemble_rows input width height column 0 ip obuf lg = Inr (ip1, out1, lg1)"
      and rec: "assemble_columns input width height (column + 1) ip1 out1 lg1 = Inr (ip', out', lg')"
      by (subst (asm) assemble_columns.simps) (simp split: if_splits sum.splits prod.splits)
    have "\<forall>i v. Wr i v \<in> set lg1 \<longrightarrow> P v"
      using assemble_rows_values [OF rows "1.prems"(2,3)] .
    then show ?thesis
      using "1.IH" [OF True rows refl refl rec _ "1.prems"(3)] by blast
  qed
qed




subsection \<open>The claims about aes_assemble_image\<close>

text \<open>
  Claim C1. For every raw buffer, width and even height, with at least \<open>w * h / 2\<close> input
  bytes and an output buffer of exactly \<open>w * h\<close> bytes (an object of that size, so \<open>w * h\<close>
  is a \<^verbatim>\<open>size_t\<close> value), \<^verbatim>\<open>aes_assemble_image\<close> returns; its accesses are, column after
  column and row pair after row pair, the read of the next input byte \<open>b\<close> and the writes of
  \<open>(b & 0x07) * 36\<close> to \<open>output[w * row + c]\<close> and of \<open>((b & 0x70) >> 4) * 36\<close> to
  \<open>output[w * (row + 1) + c]\<close>; the output holds these values when it returns. For
  \<open>w = 2\<close>, \<open>h = 2\<close> and the raw bytes \<open>0x12, 0x34\<close> the output is \<open>72, 144, 36, 108\<close>.
\<close>

theorem aes_assemble_image_layout:
  fixes width height :: size_t
  assumes ev: "even (unat height)"
      and inp: "unat width * unat height div 2 \<le> length input"
      and len: "length obuf = unat width * unat height"
      and bound: "unat width * unat height < 2 ^ 64"
  shows "\<exists>out' lg. aes_assemble_image input width height obuf = Inr (out', lg) \<and>
     length out' = unat width * unat height \<and>
     lg = concat (map (\<lambda>c. concat (map (\<lambda>j.
            [Rd (c * (unat height div 2) + j),
             Wr (unat width * (2 * j) + c)
                (even_row_pixel (input ! (c * (unat height div 2) + j))),
             Wr (unat width * (2 * j + 1) + c)
                (odd_row_pixel (input ! (c * (unat height div 2) + j)))])
          [0..<unat height div 2])) [0..<unat width]) \<and>
     (\<forall>c<unat width. \<forall>row<unat height. even row \<longrightarrow>
        out' ! (unat width * row + c) =
          even_row_pixel (input ! (c * (unat height div 2) + row div 2)) \<and>
        out' ! (unat width * (row + 1) + c) =
          odd_row_pixel (input ! (c * (unat height div 2) + row div 2))) \<and>
     (\<forall>b. uint (even_row_pixel b) = (uint b AND 0x07) * 36 \<and>
          uint (odd_row_pixel b) = drop_bit 4 (uint b AND 0x70) * 36) \<and>
     aes_assemble_image [0x12, 0x34] 2 2 [p, q, r, s] =
       Inr ([72, 144, 36, 108], [Rd 0, Wr 0 72, Wr 2 36, Rd 1, Wr 1 144, Wr 3 108])"
proof -
  let ?W = "unat width" and ?H = "unat height div 2"
  from aes_assemble_image_closed_form [OF ev inp len bound] obtain out' where
    run: "aes_assemble_image input width height obuf =
           Inr (out', concat (map (\<lambda>c. concat (map (\<lambda>j. pair_accesses input ?W c j
                                    (c * ?H + j)) [0..<?H])) [0..<?W]))"
    and len': "length out' = length obuf"
    and pt: "\<And>i. i < length obuf \<Longrightarrow> out' ! i =
                row_pixel (i div ?W) (input ! ((i mod ?W) * ?H + (i div ?W) div 2))"
    by blast
  have pix: "out' ! (?W * row + c) = even_row_pixel (input ! (c * ?H + row div 2)) \<and>
             out' ! (?W * (row + 1) + c) = odd_row_pixel (input ! (c * ?H + row div 2))"
    if c: "c < ?W" and row: "row < unat height" and erow: "even row" for c row
  proof -
    from row erow ev have row1: "row + 1 < unat height"
      by (metis Suc_eq_plus1 Suc_lessI even_Suc)
    have "?W * row + c < ?W * row + ?W" using c by simp
    also have "\<dots> = ?W * (row + 1)" by simp
    finally have a: "?W * row + c < ?W * (row + 1)" .
    also have "\<dots> \<le> ?W * unat height" using row by (intro mult_le_mono2) simp
    finally have lt1: "?W * row + c < length obuf" using len by simp
    have "?W * (row + 1) + c < ?W * (row + 1) + ?W" using c by simp
    also have "\<dots> = ?W * (row + 2)" by simp
    also have "\<dots> \<le> ?W * unat height" using row1 by (intro mult_le_mono2) simp
    finally have lt2: "?W * (row + 1) + c < length obuf" using len by simp
    have d1: "(?W * row + c) div ?W = row" "(?W * row + c) mod ?W = c"
      using c by simp_all
    have d2: "(?W * (row + 1) + c) div ?W = row + 1" "(?W * (row + 1) + c) mod ?W = c"
      using idx_eq [OF c, of "?W * (row + 1) + c" "row + 1"] by simp_all
    have e1: "out' ! (?W * row + c) = even_row_pixel (input ! (c * ?H + row div 2))"
      using erow by (simp only: pt [OF lt1] d1 row_pixel_def if_True)
    have "odd (row + 1)" using erow by simp
    moreover have "(row + 1) div 2 = row div 2" using erow by presburger
    ultimately have e2: "out' ! (?W * (row + 1) + c) = odd_row_pixel (input ! (c * ?H + row div 2))"
      by (simp only: pt [OF lt2] d2 row_pixel_def if_False)
    from e1 e2 show ?thesis ..
  qed
  have ex: "aes_assemble_image [0x12, 0x34] 2 2 [p, q, r, s] =
       Inr ([72, 144, 36, 108], [Rd 0, Wr 0 72, Wr 2 36, Rd 1, Wr 1 144, Wr 3 108])"
    by (simp add: aes_assemble_image_def assemble_columns.simps assemble_rows.simps store_def
          even_row_pixel_def odd_row_pixel_def even_row_int_def odd_row_int_def)
  have vals: "\<forall>b. uint (even_row_pixel b) = (uint b AND 0x07) * 36 \<and>
          uint (odd_row_pixel b) = drop_bit 4 (uint b AND 0x70) * 36"
    by (simp only: uint_even_row_pixel uint_odd_row_pixel even_row_int_def odd_row_int_def) simp
  show ?thesis
    apply (rule exI [of _ out'])
    apply (rule exI)
    apply (intro conjI)
         apply (rule run)
        apply (simp only: len' len)
       apply (simp only: pair_accesses_def)
      using pix apply blast
     apply (rule vals)
    apply (rule ex)
    done
qed

theorem aes_assemble_image_layout_witness:
  "even (unat (2 :: size_t)) \<and>
   unat (2 :: size_t) * unat (2 :: size_t) div 2 \<le> length [0x12, 0x34 :: byte] \<and>
   length [0, 0, 0, 0 :: byte] = unat (2 :: size_t) * unat (2 :: size_t) \<and>
   aes_assemble_image [0x12, 0x34] 2 2 [0, 0, 0, 0] =
     Inr ([72, 144, 36, 108], [Rd 0, Wr 0 72, Wr 2 36, Rd 1, Wr 1 144, Wr 3 108])"
proof -
  have h1: "even (unat (2 :: size_t))" by simp
  have h2: "unat (2 :: size_t) * unat (2 :: size_t) div 2 \<le> length [0x12, 0x34 :: byte]" by simp
  have h3: "length [0, 0, 0, 0 :: byte] = unat (2 :: size_t) * unat (2 :: size_t)" by simp
  have h4: "unat (2 :: size_t) * unat (2 :: size_t) < 2 ^ 64" by simp
  from aes_assemble_image_layout [OF h1 h2 h3 h4, of 0 0 0 0] h1 h2 h3 show ?thesis by blast
qed



text \<open>
  Claim C10. Every byte that \<^verbatim>\<open>aes_assemble_image\<close> writes is \<open>v * 36\<close> for some \<open>v\<close> from 0
  to 7, so at most 252: the product computed on \<^verbatim>\<open>int\<close> is the byte stored, nothing is lost
  modulo 256. The even-row pixel depends on bits 0 to 2 of its input byte only, the odd-row
  pixel on bits 4 to 6 only, and clearing bits 3 and 7 of every input byte changes nothing
  of what the function does.
\<close>

theorem aes_assemble_image_values:
  "(aes_assemble_image input width height obuf = Inr (out', lg) \<longrightarrow>
      (\<forall>i v. Wr i v \<in> set lg \<longrightarrow> (\<exists>k\<in>{0..7}. uint v = k * 36) \<and> uint v \<le> 252)) \<and>
   (\<exists>k\<in>{0..7}. (uint b AND 0x07) * 36 = k * 36 \<and> uint (even_row_pixel b) = k * 36) \<and>
   (\<exists>k\<in>{0..7}. drop_bit 4 (uint b AND 0x70) * 36 = k * 36 \<and> uint (odd_row_pixel b) = k * 36) \<and>
   even_row_pixel (b AND 0x07) = even_row_pixel b \<and>
   odd_row_pixel (b AND 0x70) = odd_row_pixel b \<and>
   aes_assemble_image (map (\<lambda>b. b AND 0x77) input) width height obuf =
     aes_assemble_image input width height obuf"
proof -
  let ?P = "\<lambda>v :: byte. (\<exists>k\<in>{0..7}. uint v = k * 36) \<and> uint v \<le> 252"
  have ev: "\<exists>k\<in>{0..7}. (uint b AND 0x07) * 36 = k * 36 \<and> uint (even_row_pixel b) = k * 36" for b
    using low_bits_range [of b] uint_even_row_pixel [of b] by (intro bexI [of _ "uint b AND 0x07"]) (simp_all add: even_row_int_def)
  have od: "\<exists>k\<in>{0..7}. drop_bit 4 (uint b AND 0x70) * 36 = k * 36 \<and> uint (odd_row_pixel b) = k * 36" for b
    using high_bits_range [of b] uint_odd_row_pixel [of b]
    by (intro bexI [of _ "drop_bit 4 (uint b AND 0x70)"]) (simp_all only: odd_row_int_def atLeastAtMost_iff simp_thms)
  have P: "\<forall>b. ?P (even_row_pixel b) \<and> ?P (odd_row_pixel b)"
  proof (intro allI conjI)
    fix b
    show "\<exists>k\<in>{0..7}. uint (even_row_pixel b) = k * 36" using ev [of b] by blast
    show "\<exists>k\<in>{0..7}. uint (odd_row_pixel b) = k * 36" using od [of b] by blast
    show "uint (even_row_pixel b) \<le> 252" using even_row_int_range [of b] by (simp only: uint_even_row_pixel)
    show "uint (odd_row_pixel b) \<le> 252" using odd_row_int_range [of b] by (simp only: uint_odd_row_pixel)
  qed
  have log: "\<forall>i v. Wr i v \<in> set lg \<longrightarrow> ?P v"
    if "aes_assemble_image input width height obuf = Inr (out', lg)"
  proof -
    from that obtain ip where
      "assemble_columns input width height 0 0 obuf [] = Inr (ip, out', lg)"
      by (auto simp: aes_assemble_image_def split: sum.splits)
    from assemble_columns_values [OF this _ P] show ?thesis by simp
  qed
  have mask: "aes_assemble_image (map (\<lambda>b. b AND 0x77) input) width height obuf =
     aes_assemble_image input width height obuf"
    by (simp add: aes_assemble_image_def assemble_columns_mask)
  from log ev od even_row_pixel_mask_07 odd_row_pixel_mask_70 mask show ?thesis by blast
qed

theorem aes_assemble_image_values_witness:
  "aes_assemble_image [0x9A, 0xBC] 2 2 [0, 0, 0, 0] =
     Inr ([72, 144, 36, 108], [Rd 0, Wr 0 72, Wr 2 36, Rd 1, Wr 1 144, Wr 3 108]) \<and>
   (\<exists>k\<in>{0..7}. uint (144 :: byte) = k * 36) \<and> uint (144 :: byte) \<le> 252 \<and>
   aes_assemble_image (map (\<lambda>b. b AND 0x77) [0x9A, 0xBC]) 2 2 [0, 0, 0, 0] =
     aes_assemble_image [0x9A, 0xBC] 2 2 [0, 0, 0, 0]"
proof -
  have run: "aes_assemble_image [0x9A, 0xBC] 2 2 [0, 0, 0, 0] =
     Inr ([72, 144, 36, 108], [Rd 0, Wr 0 72, Wr 2 36, Rd 1, Wr 1 144, Wr 3 108])"
    by (simp add: aes_assemble_image_def assemble_columns.simps assemble_rows.simps store_def
          even_row_pixel_def odd_row_pixel_def even_row_int_def odd_row_int_def)
  have mem: "Wr 1 144 \<in> set [Rd 0, Wr 0 72, Wr 2 36, Rd 1, Wr 1 144, Wr 3 108]"
    by simp
  from aes_assemble_image_values
         [of "[0x9A, 0xBC]" 2 2 "[0, 0, 0, 0]" "[72, 144, 36, 108]"
             "[Rd 0, Wr 0 72, Wr 2 36, Rd 1, Wr 1 144, Wr 3 108]" 0] run mem
  show ?thesis by blast
qed
section \<open>Properties of aes_write_regv\<close>

subsection \<open>The loops on a sequence that fits its counters\<close>

text \<open>
  The register array has \<^verbatim>\<open>num_regs\<close> entries, so that every index is the image of a natural
  number below the length of the list. The first loop and the loop of \<^verbatim>\<open>do_write_regv\<close>
  then compute what \<open>dropWhile\<close> and \<open>take\<close> do. The second loop computes what \<open>takeWhile\<close>
  does as long as the window it scans ends at or below \<open>2\<^sup>3\<^sup>1\<close>, where its \<^verbatim>\<open>int\<close> counter
  can index the array; this holds for every window when \<^verbatim>\<open>num_regs\<close> is at most \<^verbatim>\<open>INT_MAX\<close>.
\<close>

lemma unat_index32:
  fixes n :: uint32
  assumes "length rs = unat n" "j \<le> length rs"
  shows "unat (of_nat j :: uint32) = j"
  using assms by (intro le_unat_uoi [of j n]) simp

lemma uint_index32:
  fixes n :: uint32
  assumes "length rs = unat n" "j \<le> length rs"
  shows "uint (of_nat j :: uint32) = int j"
  using unat_index32 [OF assms] by (simp add: uint_nat)

lemma regs_at_uint:
  fixes n :: uint32
  assumes "length rs = unat n" "j < length rs"
  shows "regs_at rs (uint (of_nat j :: uint32)) = Some (rs ! j)"
proof -
  have "uint (of_nat j :: uint32) = int j"
    using assms by (intro uint_index32 [of rs n]) simp_all
  with assms(2) show ?thesis by (simp add: regs_at_def)
qed

lemma regs_at_sint:
  fixes n :: uint32
  assumes "length rs = unat n" "int j < 2147483648" "j < length rs"
  shows "regs_at rs (sint (of_nat j :: uint32)) = Some (rs ! j)"
proof -
  have u: "uint (of_nat j :: uint32) = int j"
    using assms by (intro uint_index32 [of rs n]) simp_all
  with assms(2) have "uint (of_nat j :: uint32) < 2147483648" by (simp only:)
  then have "sint (of_nat j :: uint32) = uint (of_nat j :: uint32)" by (rule sint_small)
  with u have "sint (of_nat j :: uint32) = int j" by (simp only:)
  with assms(3) show ?thesis by (simp add: regs_at_def)
qed

lemma skip_zeros_batch:
  fixes n :: uint32
  assumes len: "length rs = unat n" and w: "num_regs wdata = n" "regs wdata = rs"
  shows "j \<le> length rs \<Longrightarrow>
         skip_zeros wdata (of_nat j) =
           (if dropWhile (\<lambda>r. reg r = 0) (drop j rs) = [] then AllWritten
            else NonZeroAt (of_nat (j + length (takeWhile (\<lambda>r. reg r = 0) (drop j rs)))))"
proof (induction "length rs - j" arbitrary: j)
  case 0
  then have "j = length rs" by simp
  then have "(of_nat j :: uint32) = n" using len by simp
  then have "num_regs wdata \<le> of_nat j" using w by simp
  then have "skip_zeros wdata (of_nat j) = AllWritten"
    by (subst skip_zeros.simps) simp
  with \<open>j = length rs\<close> show ?case by simp
next
  case (Suc d)
  then have lt: "j < length rs" by simp
  have "unat (of_nat j :: uint32) = j" using len lt by (intro unat_index32 [of rs n]) simp_all
  then have "(of_nat j :: uint32) < n" using lt len by (simp add: word_less_nat_alt)
  then have nle: "\<not> num_regs wdata \<le> of_nat j" using w by simp
  have rd: "regs_at (regs wdata) (uint (of_nat j :: uint32)) = Some (rs ! j)"
    using regs_at_uint [OF len lt] w by simp
  have unf: "skip_zeros wdata (of_nat j) =
             (if reg (rs ! j) \<noteq> 0 then NonZeroAt (of_nat j) else skip_zeros wdata (of_nat (Suc j)))"
    using nle rd by (subst skip_zeros.simps) (simp add: add.commute)
  have dr: "drop j rs = rs ! j # drop (Suc j) rs"
    using lt by (simp add: Cons_nth_drop_Suc)
  show ?case
  proof (cases "reg (rs ! j) = 0")
    case False
    then show ?thesis by (simp add: unf dr)
  next
    case True
    have "skip_zeros wdata (of_nat (Suc j)) =
           (if dropWhile (\<lambda>r. reg r = 0) (drop (Suc j) rs) = [] then AllWritten
            else NonZeroAt (of_nat (Suc j + length (takeWhile (\<lambda>r. reg r = 0) (drop (Suc j) rs)))))"
      using Suc.hyps(2) lt by (intro Suc.hyps(1)) simp_all
    with True show ?thesis by (simp add: unf dr)
  qed
qed

lemma find_upper_bound_batch:
  fixes n :: uint32
  assumes len: "length rs = unat n"
  shows "i + m \<le> length rs \<Longrightarrow> 0 < i + m \<Longrightarrow> int (i + m) \<le> 2147483648 \<Longrightarrow>
         find_upper_bound rs (of_nat i) (of_nat (i + m) - 1) =
           Some (of_nat (i + length (takeWhile (\<lambda>r. reg r \<noteq> 0) (take m (drop i rs)))) - 1)"
proof (induction m arbitrary: i)
  case 0
  then obtain i' where i: "i = Suc i'" by (cases i) simp_all
  have ub: "(of_nat (i + 0) - 1 :: uint32) = of_nat i'" by (simp add: i)
  have "unat (of_nat i :: uint32) = i"
    using len 0 by (intro unat_index32 [of rs n]) simp_all
  moreover have "unat (of_nat i' :: uint32) = i'"
    using len 0 i by (intro unat_index32 [of rs n]) simp_all
  ultimately have "\<not> (of_nat i :: uint32) \<le> of_nat i'"
    using i by (simp only: word_le_nat_alt)
  then have "find_upper_bound rs (of_nat i) (of_nat i') = Some (of_nat i')"
    by (subst find_upper_bound.simps) simp
  then show ?case unfolding ub by (simp add: i)
next
  case (Suc m)
  then have lt: "i < length rs" by simp
  have ub: "(of_nat (i + Suc m) - 1 :: uint32) = of_nat (i + m)" by simp
  have ub': "(of_nat (Suc i + m) - 1 :: uint32) = of_nat (i + m)" by simp
  have "unat (of_nat i :: uint32) = i"
    using len lt by (intro unat_index32 [of rs n]) simp_all
  moreover have "unat (of_nat (i + m) :: uint32) = i + m"
    using len Suc.prems by (intro unat_index32 [of rs n]) simp_all
  ultimately have wle: "(of_nat i :: uint32) \<le> of_nat (i + m)"
    by (simp only: word_le_nat_alt)
  have rd: "regs_at rs (sint (of_nat i :: uint32)) = Some (rs ! i)"
    using Suc.prems by (intro regs_at_sint [OF len _ lt]) linarith
  have suc: "(of_nat i + 1 :: uint32) = of_nat (Suc i)" by simp
  have unf: "find_upper_bound rs (of_nat i) (of_nat (i + m)) =
             (if reg (rs ! i) = 0 then Some (of_nat i - 1)
              else find_upper_bound rs (of_nat (Suc i)) (of_nat (i + m)))"
    using wle rd by (subst find_upper_bound.simps) (simp only: suc if_True option.case)
  have dr: "take (Suc m) (drop i rs) = rs ! i # take m (drop (Suc i) rs)"
  proof -
    have "drop i rs = rs ! i # drop (Suc i) rs"
      using lt by (simp add: Cons_nth_drop_Suc)
    then show ?thesis by simp
  qed
  show ?case
  proof (cases "reg (rs ! i) = 0")
    case True
    then show ?thesis unfolding ub unf dr by simp
  next
    case False
    have "find_upper_bound rs (of_nat (Suc i)) (of_nat (Suc i + m) - 1) =
            Some (of_nat (Suc i + length (takeWhile (\<lambda>r. reg r \<noteq> 0)
                            (take m (drop (Suc i) rs)))) - 1)"
      using Suc.prems by (intro Suc.IH) simp_all
    then have "find_upper_bound rs (of_nat (Suc i)) (of_nat (i + m)) =
            Some (of_nat (Suc i + length (takeWhile (\<lambda>r. reg r \<noteq> 0)
                            (take m (drop (Suc i) rs)))) - 1)"
      unfolding ub' .
    with False show ?thesis unfolding ub unf dr by simp
  qed
qed

lemma pack_regs_batch:
  fixes n :: uint32
  assumes len: "length rs = unat n"
  shows "i \<le> b \<Longrightarrow> b \<le> length rs \<Longrightarrow>
         pack_regs rs (of_nat i) (of_nat b) data = Some (data @ encode (take (b - i) (drop i rs)))"
proof (induction "b - i" arbitrary: i data)
  case 0
  then have "\<not> (of_nat i :: uint32) < of_nat b" by simp
  then have "pack_regs rs (of_nat i) (of_nat b) data = Some data"
    by (subst pack_regs.simps) simp
  with 0 show ?case by (simp add: encode_def)
next
  case (Suc d)
  then have lt: "i < b" and ltl: "i < length rs" by simp_all
  have "unat (of_nat i :: uint32) = i"
    using len ltl by (intro unat_index32 [of rs n]) simp_all
  moreover have "unat (of_nat b :: uint32) = b"
    using len Suc.prems by (intro unat_index32 [of rs n]) simp_all
  ultimately have wlt: "(of_nat i :: uint32) < of_nat b"
    using lt by (simp add: word_less_nat_alt)
  have rd: "regs_at rs (uint (of_nat i :: uint32)) = Some (rs ! i)"
    using len ltl by (rule regs_at_uint)
  have unf: "pack_regs rs (of_nat i) (of_nat b) data =
             pack_regs rs (of_nat (Suc i)) (of_nat b) (data @ [reg (rs ! i), value (rs ! i)])"
    using wlt rd by (subst pack_regs.simps) (simp add: add.commute)
  have dr: "take (b - i) (drop i rs) = rs ! i # take (b - Suc i) (drop (Suc i) rs)"
  proof -
    have "b - i = Suc (b - Suc i)" using lt by simp
    moreover have "drop i rs = rs ! i # drop (Suc i) rs"
      using ltl by (simp add: Cons_nth_drop_Suc)
    ultimately show ?thesis by simp
  qed
  have "pack_regs rs (of_nat (Suc i)) (of_nat b) (data @ [reg (rs ! i), value (rs ! i)]) =
          Some ((data @ [reg (rs ! i), value (rs ! i)]) @ encode (take (b - Suc i) (drop (Suc i) rs)))"
    using Suc.hyps(2) Suc.prems lt by (intro Suc.hyps(1)) simp_all
  then show ?case by (simp add: unf dr encode_def)
qed

lemma length_encode: "length (encode rs) = 2 * length rs"
  by (induction rs) (simp_all add: encode_def)

lemma take_length_takeWhile_take:
  "take (length (takeWhile P (take k ys))) ys = takeWhile P (take k ys)"
proof -
  let ?tw = "takeWhile P (take k ys)"
  have "length ?tw \<le> length (take k ys)" by (rule length_takeWhile_le)
  then have le: "length ?tw \<le> k" by simp
  have "?tw = take (length ?tw) (take k ys)" by (rule takeWhile_eq_take)
  also have "\<dots> = take (min (length ?tw) k) ys" by (simp add: min.commute)
  also have "\<dots> = take (length ?tw) ys" using le by (simp add: min_absorb1)
  finally show ?thesis by simp
qed

lemma rqlength_small:
  fixes L :: nat
  assumes "L \<le> 16"
  shows "sint (ucast (ucast ((of_nat L :: uint32) * 2) :: size_t) :: uint32) = int (2 * L)"
proof -
  have up: "is_up (ucast :: uint32 \<Rightarrow> size_t)" by (simp add: is_up)
  have id: "(ucast (ucast x :: size_t) :: uint32) = x" for x :: uint32
    using up by (rule ucast_up_ucast_id)
  have w: "(of_nat L :: uint32) * 2 = of_nat (2 * L)" by simp
  have "2 * L \<le> unat (32 :: uint32)" using assms by simp
  then have "unat (of_nat (2 * L) :: uint32) = 2 * L" by (rule le_unat_uoi)
  then have u: "uint (of_nat (2 * L) :: uint32) = int (2 * L)" by (simp only: uint_nat)
  then have "uint (of_nat (2 * L) :: uint32) < 2147483648" using assms by linarith
  then have "sint (of_nat (2 * L) :: uint32) = uint (of_nat (2 * L) :: uint32)" by (rule sint_small)
  with u show ?thesis unfolding id w by (simp only:)
qed

lemma do_write_regv_batch:
  fixes n :: uint32
  assumes len: "length rs = unat n"
      and w: "regs wdata = rs" "offset wdata = of_nat off1"
      and L: "1 \<le> L" "L \<le> 16" "off1 + L \<le> length rs"
  shows "do_write_regv submit wdata (of_nat (off1 + L) - 1) =
           (let data = encode (take L (drop off1 rs))
            in if submit data
               then Some (0, [Transfer off1 L data],
                          Some \<lparr>urb_data = data, urb_length = int (length data)\<rparr>)
               else Some (- EIO, [Rejected off1 L data], None))"
proof -
  have num: "(of_nat (off1 + L) - 1 - of_nat off1 + 1 :: uint32) = of_nat L" by simp
  have bound: "(of_nat off1 + of_nat L :: uint32) = of_nat (off1 + L)" by simp
  have pk: "pack_regs rs (of_nat off1) (of_nat (off1 + L)) [] =
            Some ([] @ encode (take (off1 + L - off1) (drop off1 rs)))"
    using L by (intro pack_regs_batch [OF len]) simp_all
  have u1: "unat (of_nat off1 :: uint32) = off1"
    using len L by (intro unat_index32 [of rs n]) simp_all
  have u2: "unat (of_nat L :: uint32) = L"
    using len L by (intro unat_index32 [of rs n]) simp_all
  have rq: "sint (ucast (ucast ((of_nat L :: uint32) * 2) :: size_t) :: uint32)
            = int (length (encode (take L (drop off1 rs))))"
    using rqlength_small [OF L(2)] L(3) by (simp add: length_encode min_absorb2)
  show ?thesis
    unfolding do_write_regv_def Let_def w num bound pk u1 u2 rq by simp
qed

lemma continue_write_regv_batch:
  fixes n :: uint32
  assumes len: "length rs = unat n" and j: "j \<le> length rs"
      and wd: "wdata = \<lparr>num_regs = n, regs = rs, offset = of_nat j\<rparr>"
      and fit: "int (j + length (takeWhile (\<lambda>r. reg r = 0) (drop j rs)) +
                     min (length (dropWhile (\<lambda>r. reg r = 0) (drop j rs))) 16) \<le> 2147483648"
  defines "off1 \<equiv> j + length (takeWhile (\<lambda>r. reg r = 0) (drop j rs))"
      and "rest1 \<equiv> dropWhile (\<lambda>r. reg r = 0) (drop j rs)"
  defines "batch \<equiv> takeWhile (\<lambda>r. reg r \<noteq> 0) (take 16 rest1)"
  shows "continue_write_regv submit wdata =
     (if rest1 = [] then Some ([Callback 0], wdata, None)
      else if submit (encode batch)
      then Some ([CursorSet (of_nat off1), Transfer off1 (length batch) (encode batch),
                  CursorSet (of_nat (off1 + length batch))],
                 wdata\<lparr>offset := of_nat (off1 + length batch)\<rparr>,
                 Some \<lparr>urb_data = encode batch, urb_length = int (length (encode batch))\<rparr>)
      else Some ([CursorSet (of_nat off1), Rejected off1 (length batch) (encode batch), Callback (- EIO)],
                 wdata\<lparr>offset := of_nat off1\<rparr>, None))"
    and "rest1 = drop off1 rs"
    and "rest1 \<noteq> [] \<Longrightarrow> 1 \<le> length batch \<and> length batch \<le> 16 \<and>
           off1 + length batch \<le> length rs \<and> (\<forall>r\<in>set batch. reg r \<noteq> 0) \<and>
           batch = take (length batch) (drop off1 rs)"
proof -
  let ?tw = "takeWhile (\<lambda>r. reg r = 0) (drop j rs)"
  have split: "drop j rs = ?tw @ rest1"
    unfolding rest1_def by simp
  have "length (drop j rs) = length ?tw + length rest1"
    by (subst split) simp
  then have total: "off1 + length rest1 = length rs"
    using j unfolding off1_def by simp
  have "drop off1 rs = drop (length ?tw) (drop j rs)"
    unfolding off1_def by (simp add: add.commute)
  also have "\<dots> = rest1"
    by (subst split) simp
  finally show r1: "rest1 = drop off1 rs" by simp
  have sk: "skip_zeros wdata (offset wdata) =
            (if rest1 = [] then AllWritten else NonZeroAt (of_nat off1))"
    unfolding rest1_def off1_def
    using skip_zeros_batch [OF len _ _ j, of wdata] by (simp add: wd)
  have batch_props: "1 \<le> length batch \<and> length batch \<le> 16 \<and>
           off1 + length batch \<le> length rs \<and> (\<forall>r\<in>set batch. reg r \<noteq> 0) \<and>
           batch = take (length batch) (drop off1 rs)" if ne: "rest1 \<noteq> []"
  proof -
    from ne obtain x xs where c: "rest1 = x # xs" by (cases rest1) simp_all
    then have "dropWhile (\<lambda>r. reg r = 0) (drop j rs) = x # xs" by (simp add: rest1_def)
    then have "reg x \<noteq> 0" by (simp add: dropWhile_eq_Cons_conv)
    with c have b1: "1 \<le> length batch" by (simp add: batch_def)
    have "length batch \<le> length (take 16 rest1)"
      unfolding batch_def by (rule length_takeWhile_le)
    then have b2: "length batch \<le> 16" and b3: "length batch \<le> length rest1" by simp_all
    have b4: "\<forall>r\<in>set batch. reg r \<noteq> 0"
      unfolding batch_def by (auto dest: set_takeWhileD)
    have b5: "batch = take (length batch) (drop off1 rs)"
      unfolding batch_def r1 [symmetric] by (rule take_length_takeWhile_take [symmetric])
    from b1 b2 b3 b4 b5 total show ?thesis by simp
  qed
  then show "rest1 \<noteq> [] \<Longrightarrow> 1 \<le> length batch \<and> length batch \<le> 16 \<and>
           off1 + length batch \<le> length rs \<and> (\<forall>r\<in>set batch. reg r \<noteq> 0) \<and>
           batch = take (length batch) (drop off1 rs)" .
  show "continue_write_regv submit wdata =
     (if rest1 = [] then Some ([Callback 0], wdata, None)
      else if submit (encode batch)
      then Some ([CursorSet (of_nat off1), Transfer off1 (length batch) (encode batch),
                  CursorSet (of_nat (off1 + length batch))],
                 wdata\<lparr>offset := of_nat (off1 + length batch)\<rparr>,
                 Some \<lparr>urb_data = encode batch, urb_length = int (length (encode batch))\<rparr>)
      else Some ([CursorSet (of_nat off1), Rejected off1 (length batch) (encode batch), Callback (- EIO)],
                 wdata\<lparr>offset := of_nat off1\<rparr>, None))"
  proof (cases "rest1 = []")
    case True
    then show ?thesis by (simp add: continue_write_regv_def sk)
  next
    case False
    note bp = batch_props [OF False]
    define lim where "lim = min (length rest1) 16"
    define L where "L = length batch"
    have lim1: "1 \<le> lim" using False by (cases rest1) (simp_all add: lim_def)
    have limle: "off1 + lim \<le> length rs" using total by (simp add: lim_def)
    have fit': "int (off1 + lim) \<le> 2147483648"
      using fit unfolding off1_def rest1_def lim_def .
    have off1le: "off1 \<le> length rs" using total by simp
    have "n = of_nat (length rs)" using len by simp
    then have "n - of_nat off1 = (of_nat (length rs) - of_nat off1 :: uint32)" by simp
    also have "\<dots> = of_nat (length rs - off1)" using off1le by (simp add: of_nat_diff)
    also have "length rs - off1 = length rest1" using total by simp
    finally have rem: "n - of_nat off1 = (of_nat (length rest1) :: uint32)" .
    have urem: "unat (of_nat (length rest1) :: uint32) = length rest1"
      using len total by (intro unat_index32 [of rs n]) simp_all
    have "unat MAX_REGWRITES_PER_REQUEST = 16" by (simp add: MAX_REGWRITES_PER_REQUEST_def)
    with urem have cmp: "((of_nat (length rest1) :: uint32) < MAX_REGWRITES_PER_REQUEST)
               = (length rest1 < 16)"
      by (simp only: word_less_nat_alt)
    have limit: "(if (of_nat (length rest1) :: uint32) < MAX_REGWRITES_PER_REQUEST
                  then of_nat (length rest1) else MAX_REGWRITES_PER_REQUEST)
                 = (of_nat lim :: uint32)"
      unfolding cmp by (simp add: lim_def MAX_REGWRITES_PER_REQUEST_def min_def)
    have ub0: "(of_nat off1 + of_nat lim - 1 :: uint32) = of_nat (off1 + lim) - 1" by simp
    have tk: "take lim (drop off1 rs) = take 16 rest1"
      unfolding lim_def r1 [symmetric] by (cases "length rest1 \<le> 16") (simp_all add: min_def)
    have fu: "find_upper_bound rs (of_nat off1) (of_nat (off1 + lim) - 1) =
                Some (of_nat (off1 + L) - 1)"
      using find_upper_bound_batch [OF len limle] lim1 fit'
      unfolding tk L_def batch_def by simp
    have dw: "do_write_regv submit (wdata\<lparr>offset := of_nat off1\<rparr>) (of_nat (off1 + L) - 1) =
           (let data = encode (take L (drop off1 rs))
            in if submit data
               then Some (0, [Transfer off1 L data],
                          Some \<lparr>urb_data = data, urb_length = int (length data)\<rparr>)
               else Some (- EIO, [Rejected off1 L data], None))"
      using bp unfolding L_def [symmetric]
      by (intro do_write_regv_batch [OF len]) (simp_all add: wd)
    have bt: "take L (drop off1 rs) = batch" using bp by (simp add: L_def)
    have inc: "(of_nat (off1 + L) - 1 + 1 :: uint32) = of_nat (off1 + L)" by simp
    have fu': "find_upper_bound rs (of_nat off1) (of_nat off1 + of_nat lim - 1) =
                Some (of_nat (off1 + L) - 1)"
      using fu by (simp only: ub0)
    have step: "continue_write_regv submit wdata =
      (case find_upper_bound rs (of_nat off1) (of_nat off1 + of_nat lim - 1) of
                None \<Rightarrow> None
              | Some upper_bound' \<Rightarrow>
                  (case do_write_regv submit (wdata\<lparr>offset := of_nat off1\<rparr>) upper_bound' of
                     None \<Rightarrow> None
                   | Some (r, evs, u) \<Rightarrow>
                       if r < 0
                       then Some (CursorSet (of_nat off1) # evs @ [Callback r],
                                  wdata\<lparr>offset := of_nat off1\<rparr>, u)
                       else Some (CursorSet (of_nat off1) # evs @ [CursorSet (upper_bound' + 1)],
                                  wdata\<lparr>offset := of_nat off1, offset := upper_bound' + 1\<rparr>, u)))"
      unfolding continue_write_regv_def sk unfolding wd using False
      by (simp add: Let_def rem limit cong: if_cong option.case_cong)
    show ?thesis
      apply (simp only: step fu' option.case)
      apply (simp only: dw bt Let_def)
      using False apply (simp add: EIO_def L_def wd)
      done
  qed
qed

subsection \<open>The operation as a sequence of batches\<close>

lemma run_regv_batch:
  fixes n :: uint32
  assumes len: "length rs = unat n" and max: "n \<le> 0x7FFFFFFF"
  shows "j \<le> length rs \<Longrightarrow>
         run_regv tp k \<lparr>num_regs = n, regs = rs, offset = of_nat j\<rparr> =
           Some (batch_run tp k j (drop j rs))"
proof (induction "length rs - j" arbitrary: j k rule: less_induct)
  case less
  define wdata where "wdata = \<lparr>num_regs = n, regs = rs, offset = of_nat j\<rparr>"
  define off1 where "off1 = j + length (takeWhile (\<lambda>r. reg r = 0) (drop j rs))"
  define rest1 where "rest1 = dropWhile (\<lambda>r. reg r = 0) (drop j rs)"
  define batch where "batch = takeWhile (\<lambda>r. reg r \<noteq> 0) (take 16 rest1)"
  define data where "data = encode batch"
  define off2 where "off2 = off1 + length batch"
  have fit: "int (j + length (takeWhile (\<lambda>r. reg r = 0) (drop j rs)) +
                  min (length (dropWhile (\<lambda>r. reg r = 0) (drop j rs))) 16) \<le> 2147483648"
  proof -
    have "length (takeWhile (\<lambda>r. reg r = 0) (drop j rs)) +
            length (dropWhile (\<lambda>r. reg r = 0) (drop j rs)) = length rs - j"
      by (simp only: length_append [symmetric] takeWhile_dropWhile_id length_drop)
    moreover have "min (length (dropWhile (\<lambda>r. reg r = 0) (drop j rs))) 16
                     \<le> length (dropWhile (\<lambda>r. reg r = 0) (drop j rs))"
      by (rule min.cobounded1)
    ultimately have "j + length (takeWhile (\<lambda>r. reg r = 0) (drop j rs)) +
                 min (length (dropWhile (\<lambda>r. reg r = 0) (drop j rs))) 16 \<le> length rs"
      using less.prems by linarith
    moreover have "uint n \<le> 2147483647" using max by (simp add: word_le_def)
    moreover have "uint n = int (unat n)" by (rule uint_nat)
    ultimately show ?thesis using len by linarith
  qed
  note cw1 = continue_write_regv_batch(1) [OF len less.prems wdata_def fit, of "accepts tp k",
      folded off1_def rest1_def, folded batch_def, folded data_def off2_def]
  note cw2 = continue_write_regv_batch(2) [OF len less.prems wdata_def fit,
      folded off1_def rest1_def]
  note cw3 = continue_write_regv_batch(3) [OF len less.prems wdata_def fit,
      folded off1_def rest1_def, folded batch_def]
  have br: "batch_run tp k j (drop j rs) =
     (if rest1 = [] then [Callback 0]
      else if accepts tp k data
           then CursorSet (of_nat off1) # Transfer off1 (length batch) data #
                CursorSet (of_nat off2) #
                (case completes tp k data of
                   (status, actual_length) \<Rightarrow>
                     Completed status (int (length data)) actual_length #
                     (case write_regv_trf_complete status (int (length data)) actual_length of
                        InvokeCallback st \<Rightarrow> [Callback st]
                      | Continue \<Rightarrow> batch_run tp (k + 1) off2 (drop (length batch) rest1)))
           else [CursorSet (of_nat off1), Rejected off1 (length batch) data, Callback (- EIO)])"
    by (subst batch_run.simps)
       (simp only: Let_def off1_def rest1_def batch_def data_def off2_def)
  show ?case
  proof (cases "rest1 = []")
    case True
    then have "continue_write_regv (accepts tp k) wdata = Some ([Callback 0], wdata, None)"
      using cw1 by simp
    then have "run_regv tp k wdata = Some [Callback 0]"
      by (subst run_regv.simps) simp
    with True br show ?thesis by (simp add: wdata_def)
  next
    case ne: False
    note bp = cw3 [OF ne]
    show ?thesis
    proof (cases "accepts tp k data")
      case False
      then have "continue_write_regv (accepts tp k) wdata =
                 Some ([CursorSet (of_nat off1), Rejected off1 (length batch) data, Callback (- EIO)],
                       wdata\<lparr>offset := of_nat off1\<rparr>, None)"
        using cw1 ne by simp
      then have "run_regv tp k wdata =
                 Some [CursorSet (of_nat off1), Rejected off1 (length batch) data, Callback (- EIO)]"
        by (subst run_regv.simps) simp
      with False ne br show ?thesis by (simp add: wdata_def)
    next
      case True
      then have c: "continue_write_regv (accepts tp k) wdata =
                 Some ([CursorSet (of_nat off1), Transfer off1 (length batch) data,
                        CursorSet (of_nat off2)],
                       wdata\<lparr>offset := of_nat off2\<rparr>,
                       Some \<lparr>urb_data = data, urb_length = int (length data)\<rparr>)"
        using cw1 ne by simp
      obtain status actual_length where cp: "completes tp k data = (status, actual_length)"
        by (cases "completes tp k data")
      show ?thesis
      proof (cases "write_regv_trf_complete status (int (length data)) actual_length")
        case (InvokeCallback st)
        with c cp have "run_regv tp k wdata =
              Some ([CursorSet (of_nat off1), Transfer off1 (length batch) data,
                     CursorSet (of_nat off2)] @
                    [Completed status (int (length data)) actual_length, Callback st])"
          by (subst run_regv.simps) simp
        with True ne br cp InvokeCallback show ?thesis by (simp add: wdata_def)
      next
        case Continue
        have j2: "off2 \<le> length rs" using bp by (simp add: off2_def)
        have "j \<le> off1" by (simp add: off1_def)
        moreover from bp have "1 \<le> length batch" "off1 + length batch \<le> length rs"
          by simp_all
        ultimately have "length rs - off2 < length rs - j"
          unfolding off2_def by linarith
        from less.hyps [OF this j2, of "k + 1"]
        have ih: "run_regv tp (k + 1) (wdata\<lparr>offset := of_nat off2\<rparr>) =
                  Some (batch_run tp (k + 1) off2 (drop off2 rs))"
          by (simp add: wdata_def)
        have dd: "drop off2 rs = drop (length batch) rest1"
          unfolding cw2 off2_def by (simp add: add.commute)
        from c cp Continue ih have "run_regv tp k wdata =
              Some ([CursorSet (of_nat off1), Transfer off1 (length batch) data,
                     CursorSet (of_nat off2)] @
                    Completed status (int (length data)) actual_length #
                    batch_run tp (k + 1) off2 (drop off2 rs))"
          by (subst run_regv.simps) simp
        with True ne br cp Continue show ?thesis by (simp add: wdata_def dd)
      qed
    qed
  qed
qed

lemma aes_write_regv_batch:
  fixes n :: uint32
  assumes len: "length rs = unat n" and max: "n \<le> 0x7FFFFFFF"
  shows "aes_write_regv tp rs n = Some (CursorSet 0 # batch_run tp 0 0 rs)"
  using run_regv_batch [OF len max, of 0 tp 0] by (simp add: aes_write_regv_def)
subsection \<open>Traces of batches\<close>

lemma batch_run_unfold:
  fixes rest :: "aes_regwrite list"
  defines "off1 \<equiv> \<lambda>off rest. off + length (takeWhile (\<lambda>r. reg r = 0) rest)"
  defines "rest1 \<equiv> dropWhile (\<lambda>r. reg r = 0) rest"
  defines "batch \<equiv> takeWhile (\<lambda>r. reg r \<noteq> 0) (take 16 rest1)"
  shows "batch_run tp k off rest =
     (if rest1 = [] then [Callback 0]
      else if \<not> accepts tp k (encode batch)
      then [CursorSet (of_nat (off1 off rest)), Rejected (off1 off rest) (length batch) (encode batch),
            Callback (- EIO)]
      else [CursorSet (of_nat (off1 off rest)), Transfer (off1 off rest) (length batch) (encode batch),
            CursorSet (of_nat (off1 off rest + length batch)),
            Completed (fst (completes tp k (encode batch))) (int (length (encode batch)))
                      (snd (completes tp k (encode batch)))] @
           (if fst (completes tp k (encode batch)) \<noteq> FP_URB_COMPLETED then [Callback (- EIO)]
            else if int (length (encode batch)) \<noteq> snd (completes tp k (encode batch))
            then [Callback (- EPROTO)]
            else batch_run tp (k + 1) (off1 off rest + length batch) (drop (length batch) rest1)))"
  by (subst batch_run.simps)
     (simp add: Let_def off1_def rest1_def batch_def write_regv_trf_complete_def
        split: prod.splits)

lemma batch_facts:
  fixes rest :: "aes_regwrite list"
  defines "tw \<equiv> takeWhile (\<lambda>r. reg r = 0) rest"
  defines "rest1 \<equiv> dropWhile (\<lambda>r. reg r = 0) rest"
  defines "batch \<equiv> takeWhile (\<lambda>r. reg r \<noteq> 0) (take 16 rest1)"
  assumes ne: "rest1 \<noteq> []"
  shows "rest = tw @ rest1" and "\<forall>r\<in>set tw. reg r = 0"
    and "rest1 = batch @ drop (length batch) rest1"
    and "1 \<le> length batch" and "length batch \<le> 16" and "\<forall>r\<in>set batch. reg r \<noteq> 0"
    and "length tw + length batch \<le> length rest"
    and "batch = take (length batch) rest1"
proof -
  show split: "rest = tw @ rest1" by (simp add: tw_def rest1_def)
  show "\<forall>r\<in>set tw. reg r = 0" unfolding tw_def by (auto dest: set_takeWhileD)
  show tk: "batch = take (length batch) rest1"
    unfolding batch_def by (rule take_length_takeWhile_take [symmetric])
  then have "batch @ drop (length batch) rest1 = take (length batch) rest1 @ drop (length batch) rest1"
    by simp
  then show "rest1 = batch @ drop (length batch) rest1" by simp
  from ne obtain x xs where c: "rest1 = x # xs" by (cases rest1) simp_all
  then have "dropWhile (\<lambda>r. reg r = 0) rest = x # xs" by (simp add: rest1_def)
  then have "reg x \<noteq> 0" by (simp add: dropWhile_eq_Cons_conv)
  with c show "1 \<le> length batch" by (simp add: batch_def)
  have lb: "length batch \<le> length (take 16 rest1)"
    unfolding batch_def by (rule length_takeWhile_le)
  then show "length batch \<le> 16" by simp
  from lb have le: "length batch \<le> length rest1" by simp
  show "\<forall>r\<in>set batch. reg r \<noteq> 0" unfolding batch_def by (auto dest: set_takeWhileD)
  have "length rest = length tw + length rest1" by (subst split) simp
  with le show "length tw + length batch \<le> length rest" by simp
qed

lemma batch_run_induct [consumes 0, case_names finished batch]:
  fixes P :: "nat \<Rightarrow> nat \<Rightarrow> aes_regwrite list \<Rightarrow> bool"
  assumes fin: "\<And>k off rest. dropWhile (\<lambda>r. reg r = 0) rest = [] \<Longrightarrow> P k off rest"
      and step: "\<And>k off rest tw rest1 batch.
            tw = takeWhile (\<lambda>r. reg r = 0) rest \<Longrightarrow>
            rest1 = dropWhile (\<lambda>r. reg r = 0) rest \<Longrightarrow> rest1 \<noteq> [] \<Longrightarrow>
            batch = takeWhile (\<lambda>r. reg r \<noteq> 0) (take 16 rest1) \<Longrightarrow>
            P (k + 1) (off + length tw + length batch) (drop (length batch) rest1) \<Longrightarrow>
            P k off rest"
  shows "P k off rest"
proof (induction "length rest" arbitrary: k off rest rule: less_induct)
  case less
  show ?case
  proof (cases "dropWhile (\<lambda>r. reg r = 0) rest = []")
    case True
    then show ?thesis by (rule fin)
  next
    case False
    define rest1 where "rest1 = dropWhile (\<lambda>r. reg r = 0) rest"
    define batch where "batch = takeWhile (\<lambda>r. reg r \<noteq> 0) (take 16 rest1)"
    have ne: "rest1 \<noteq> []" using False by (simp add: rest1_def)
    have "1 \<le> length batch"
      unfolding batch_def rest1_def using False by (intro batch_facts(4))
    moreover have "length rest1 \<le> length rest"
      unfolding rest1_def by (rule length_dropWhile_le)
    moreover have "0 < length rest1" using ne by simp
    ultimately have "length rest1 - length batch < length rest" by linarith
    then have "length (drop (length batch) rest1) < length rest" by simp
    from less [OF this] have "P (k + 1) (off + length (takeWhile (\<lambda>r. reg r = 0) rest) + length batch)
                                 (drop (length batch) rest1)" .
    with ne show ?thesis by (intro step [OF refl rest1_def _ batch_def])
  qed
qed

lemma callbacks_batch_run: "length (callbacks (batch_run tp k off rest)) = 1"
proof (induction k off rest rule: batch_run_induct)
  case (finished k off rest)
  then show ?case by (subst batch_run_unfold) simp
next
  case (batch k off rest tw rest1 batch)
  then show ?case by (subst batch_run_unfold) simp
qed




lemma cursor_range:
  "CursorSet c \<in> set (batch_run tp k off rest) \<Longrightarrow>
     \<exists>j. off \<le> j \<and> j \<le> off + length rest \<and> c = of_nat j"
proof (induction k off rest rule: batch_run_induct)
  case (finished k off rest)
  from finished(2) finished(1) show ?case
    by (subst (asm) batch_run_unfold) simp
next
  case (batch k off rest tw rest1 batch)
  note U = batch_run_unfold [of tp k off rest, folded batch(1) batch(2), folded batch(4)]
  note bf = batch_facts [of rest, folded batch(1) batch(2), folded batch(4), OF batch(3)]
  have len: "length rest = length tw + length rest1" by (subst bf(1)) simp
  have lb: "length batch \<le> length rest1"
    using bf(3) by (metis length_append le_add1)
  from batch(6) batch(3) consider
      (a) "c = of_nat (off + length tw)"
    | (b) "c = of_nat (off + length tw + length batch)"
    | (r) "CursorSet c \<in> set (batch_run tp (k + 1) (off + length tw + length batch)
                                  (drop (length batch) rest1))"
    unfolding U by (auto split: if_splits)
  then show ?case
  proof cases
    case a
    then show ?thesis using len by (intro exI [of _ "off + length tw"]) simp
  next
    case b
    then show ?thesis using len lb by (intro exI [of _ "off + length tw + length batch"]) simp
  next
    case r
    from batch(5) [OF r] obtain j where
      "off + length tw + length batch \<le> j"
      "j \<le> off + length tw + length batch + length (drop (length batch) rest1)"
      "c = of_nat j" by blast
    then show ?thesis using len lb by (intro exI [of _ j]) simp
  qed
qed

lemma submission_range:
  "(o', num, data) \<in> set (submissions (batch_run tp k off rest)) \<Longrightarrow>
     off \<le> o' \<and> 1 \<le> num \<and> num \<le> 16 \<and> o' + num \<le> off + length rest \<and>
     data = encode (take num (drop (o' - off) rest)) \<and>
     (\<forall>r\<in>set (take num (drop (o' - off) rest)). reg r \<noteq> 0)"
proof (induction k off rest rule: batch_run_induct)
  case (finished k off rest)
  from finished(2) finished(1) show ?case
    by (subst (asm) batch_run_unfold) simp
next
  case (batch k off rest tw rest1 batch)
  note U = batch_run_unfold [of tp k off rest, folded batch(1) batch(2), folded batch(4)]
  note bf = batch_facts [of rest, folded batch(1) batch(2), folded batch(4), OF batch(3)]
  have len: "length rest = length tw + length rest1" by (subst bf(1)) simp
  have lb: "length batch \<le> length rest1"
    using bf(3) by (metis length_append le_add1)
  have d1: "drop (length tw) rest = rest1" by (subst bf(1)) simp
  from batch(6) batch(3) consider
      (a) "o' = off + length tw" "num = length batch" "data = encode batch"
    | (r) "(o', num, data) \<in> set (submissions (batch_run tp (k + 1)
                (off + length tw + length batch) (drop (length batch) rest1)))"
    unfolding U by (auto split: if_splits)
  then show ?case
  proof cases
    case a
    have "take num (drop (o' - off) rest) = batch"
      using a bf(8) d1 by simp
    with a bf len lb show ?thesis by simp
  next
    case r
    let ?o2 = "off + length tw + length batch"
    from batch(5) [OF r] have ih:
      "?o2 \<le> o'" "1 \<le> num" "num \<le> 16"
      "o' + num \<le> ?o2 + length (drop (length batch) rest1)"
      "data = encode (take num (drop (o' - ?o2) (drop (length batch) rest1)))"
      "\<forall>r\<in>set (take num (drop (o' - ?o2) (drop (length batch) rest1))). reg r \<noteq> 0"
      by simp_all
    have "drop (o' - ?o2) (drop (length batch) rest1)
          = drop (o' - ?o2) (drop (length batch) (drop (length tw) rest))"
      by (simp only: d1)
    also have "\<dots> = drop (o' - ?o2 + length batch + length tw) rest"
      by (simp only: drop_drop add.assoc)
    also have "o' - ?o2 + length batch + length tw = o' - off"
      using ih(1) by simp
    finally have dd: "drop (o' - ?o2) (drop (length batch) rest1) = drop (o' - off) rest" .
    from ih len lb show ?thesis unfolding dd by simp
  qed
qed

lemma encode_append: "encode (xs @ ys) = encode xs @ encode ys"
  by (simp add: encode_def)

lemma filter_all: "\<forall>r\<in>set xs. P r \<Longrightarrow> filter P xs = xs"
  by (induction xs) simp_all

lemma filter_none: "\<forall>r\<in>set xs. \<not> P r \<Longrightarrow> filter P xs = []"
  by (induction xs) simp_all

lemma filter_batches:
  fixes rest :: "aes_regwrite list"
  defines "rest1 \<equiv> dropWhile (\<lambda>r. reg r = 0) rest"
  defines "batch \<equiv> takeWhile (\<lambda>r. reg r \<noteq> 0) (take 16 rest1)"
  shows "filter (\<lambda>r. reg r \<noteq> 0) rest = batch @ filter (\<lambda>r. reg r \<noteq> 0) (drop (length batch) rest1)"
proof (cases "rest1 = []")
  case True
  then have "\<forall>r\<in>set rest. \<not> reg r \<noteq> 0" by (simp add: rest1_def dropWhile_eq_Nil_conv)
  then have "filter (\<lambda>r. reg r \<noteq> 0) rest = []" by (rule filter_none)
  with True show ?thesis by (simp add: batch_def)
next
  case False
  note bf = batch_facts [of rest, folded rest1_def, folded batch_def, OF False]
  let ?tw = "takeWhile (\<lambda>r. reg r = 0) rest"
  have "\<forall>r\<in>set ?tw. \<not> reg r \<noteq> 0" using bf(2) by simp
  then have f1: "filter (\<lambda>r. reg r \<noteq> 0) ?tw = []" by (rule filter_none)
  have f2: "filter (\<lambda>r. reg r \<noteq> 0) batch = batch" using bf(6) by (rule filter_all)
  have "filter (\<lambda>r. reg r \<noteq> 0) rest = filter (\<lambda>r. reg r \<noteq> 0) (?tw @ rest1)"
    using bf(1) by simp
  also have "\<dots> = filter (\<lambda>r. reg r \<noteq> 0) rest1" by (simp only: filter_append f1 append_Nil)
  also have "\<dots> = filter (\<lambda>r. reg r \<noteq> 0) (batch @ drop (length batch) rest1)"
    using bf(3) by simp
  also have "\<dots> = batch @ filter (\<lambda>r. reg r \<noteq> 0) (drop (length batch) rest1)"
    by (simp only: filter_append f2)
  finally show ?thesis .
qed

lemma success_payloads:
  "list_all succeeds (batch_run tp k off rest) \<Longrightarrow>
     concat (map (snd \<circ> snd) (submissions (batch_run tp k off rest)))
       = encode (filter (\<lambda>r. reg r \<noteq> 0) rest) \<and>
     callbacks (batch_run tp k off rest) = [0] \<and>
     completions (batch_run tp k off rest)
       = map (\<lambda>(off, num, data). (FP_URB_COMPLETED, int (length data), int (length data)))
           (submissions (batch_run tp k off rest))"
proof (induction k off rest rule: batch_run_induct)
  case (finished k off rest)
  then have "\<forall>r\<in>set rest. \<not> reg r \<noteq> 0" by (simp add: dropWhile_eq_Nil_conv)
  then have "filter (\<lambda>r. reg r \<noteq> 0) rest = []" by (rule filter_none)
  with finished(1) show ?case
    by (subst batch_run_unfold, subst (2) batch_run_unfold, subst (3) batch_run_unfold,
        subst (4) batch_run_unfold) (simp add: encode_def)
next
  case (batch k off rest tw rest1 batch)
  note U = batch_run_unfold [of tp k off rest, folded batch(1) batch(2), folded batch(4)]
  note fb = filter_batches [of rest, folded batch(2), folded batch(4)]
  let ?rec = "batch_run tp (k + 1) (off + length tw + length batch) (drop (length batch) rest1)"
  from batch(6) batch(3) have
    acc: "accepts tp k (encode batch)"
    and st: "fst (completes tp k (encode batch)) = FP_URB_COMPLETED"
    and al: "int (length (encode batch)) = snd (completes tp k (encode batch))"
    and rec: "list_all succeeds ?rec"
    unfolding U by (auto split: if_splits)
  have tr: "batch_run tp k off rest =
        [CursorSet (of_nat (off + length tw)),
         Transfer (off + length tw) (length batch) (encode batch),
         CursorSet (of_nat (off + length tw + length batch)),
         Completed FP_URB_COMPLETED (int (length (encode batch))) (int (length (encode batch)))]
        @ ?rec"
    unfolding U using batch(3) acc st al by simp
  from batch(5) [OF rec] show ?case
    unfolding tr fb by (simp add: encode_append)
qed

lemma example_run:
  "aes_write_regv reliable
     [\<lparr>reg = 1, value = 2\<rparr>, \<lparr>reg = 0, value = 0\<rparr>, \<lparr>reg = 3, value = 4\<rparr>] 3 =
   Some [CursorSet 0, CursorSet 0, Transfer 0 1 [1, 2], CursorSet 1,
         Completed FP_URB_COMPLETED 2 2, CursorSet 2, Transfer 2 1 [3, 4],
         CursorSet 3, Completed FP_URB_COMPLETED 2 2, Callback 0]"
  by code_simp

lemma example_valid:
  "length [\<lparr>reg = 1, value = 2\<rparr>, \<lparr>reg = 0, value = 0\<rparr>, \<lparr>reg = 3, value = 4\<rparr>] = unat (3 :: uint32)"
  "(3 :: uint32) \<le> 0x7FFFFFFF"
  by simp_all

lemma no_barrier_batch:
  fixes rest :: "aes_regwrite list"
  assumes nb: "\<forall>r\<in>set rest. reg r \<noteq> 0"
  shows "takeWhile (\<lambda>r. reg r = 0) rest = []"
    and "dropWhile (\<lambda>r. reg r = 0) rest = rest"
    and "takeWhile (\<lambda>r. reg r \<noteq> 0) (take 16 rest) = take 16 rest"
proof -
  show "takeWhile (\<lambda>r. reg r = 0) rest = []" using nb by (cases rest) simp_all
  show "dropWhile (\<lambda>r. reg r = 0) rest = rest" using nb by (cases rest) simp_all
  have "\<forall>r\<in>set (take 16 rest). reg r \<noteq> 0" using nb by (auto dest: in_set_takeD)
  then show "takeWhile (\<lambda>r. reg r \<noteq> 0) (take 16 rest) = take 16 rest"
    by (simp only: takeWhile_eq_all_conv)
qed

lemma batch_run_no_barrier:
  assumes nb: "\<forall>r\<in>set rest. reg r \<noteq> 0" and ne: "rest \<noteq> []"
  shows "batch_run tp k off rest =
     (if \<not> accepts tp k (encode (take 16 rest))
      then [CursorSet (of_nat off), Rejected off (length (take 16 rest)) (encode (take 16 rest)),
            Callback (- EIO)]
      else [CursorSet (of_nat off), Transfer off (length (take 16 rest)) (encode (take 16 rest)),
            CursorSet (of_nat (off + length (take 16 rest))),
            Completed (fst (completes tp k (encode (take 16 rest))))
                      (int (length (encode (take 16 rest))))
                      (snd (completes tp k (encode (take 16 rest))))] @
           (if fst (completes tp k (encode (take 16 rest))) \<noteq> FP_URB_COMPLETED
            then [Callback (- EIO)]
            else if int (length (encode (take 16 rest))) \<noteq> snd (completes tp k (encode (take 16 rest)))
            then [Callback (- EPROTO)]
            else batch_run tp (k + 1) (off + length (take 16 rest)) (drop 16 rest)))"
proof -
  note nbb = no_barrier_batch [OF nb]
  have d: "drop (length (take 16 rest)) rest = drop 16 rest"
    by (cases "length rest \<le> 16") (simp_all add: min_def)
  have z: "off + length ([] :: aes_regwrite list) = off" by simp
  show ?thesis
    using ne batch_run_unfold [of tp k off rest, unfolded nbb z d] by (simp only: if_False)
qed

lemma batch_run_nil: "batch_run tp k off [] = [Callback 0]"
  by (subst batch_run_unfold) simp

lemma single_batch:
  assumes nb: "\<forall>r\<in>set rest. reg r \<noteq> 0" and ne: "1 \<le> length rest" and le: "length rest \<le> 16"
  shows "submissions (batch_run tp k off rest) = [(off, length rest, encode rest)]"
proof -
  from ne have ne': "rest \<noteq> []" by (cases rest) simp_all
  from le have t: "take 16 rest = rest" and d: "drop 16 rest = []" by simp_all
  show ?thesis
    unfolding batch_run_no_barrier [OF nb ne'] t d batch_run_nil by simp
qed

lemma chunked_batches:
  "\<forall>r\<in>set rest. reg r \<noteq> 0 \<Longrightarrow> list_all succeeds (batch_run tp k off rest) \<Longrightarrow>
   submissions (batch_run tp k off rest) =
     map (\<lambda>i. (off + 16 * i, min 16 (length rest - 16 * i), encode (take 16 (drop (16 * i) rest))))
       [0..<(length rest + 15) div 16]"
proof (induction "length rest" arbitrary: rest k off rule: less_induct)
  case less
  show ?case
  proof (cases "rest = []")
    case True
    then show ?thesis by (simp add: batch_run_nil)
  next
    case False
    note U = batch_run_no_barrier [OF less.prems(1) False, of tp k off]
    let ?L = "length (take 16 rest)"
    let ?rec = "batch_run tp (k + 1) (off + ?L) (drop 16 rest)"
    from less.prems(2) have
      tr: "batch_run tp k off rest =
        [CursorSet (of_nat off), Transfer off ?L (encode (take 16 rest)),
         CursorSet (of_nat (off + ?L)),
         Completed FP_URB_COMPLETED (int (length (encode (take 16 rest))))
                   (int (length (encode (take 16 rest))))] @ ?rec"
      and rec: "list_all succeeds ?rec"
      unfolding U by (auto split: if_splits)
    have sub: "submissions (batch_run tp k off rest) =
                 (off, ?L, encode (take 16 rest)) # submissions ?rec"
      unfolding tr by simp
    have nb': "\<forall>r\<in>set (drop 16 rest). reg r \<noteq> 0"
      using less.prems(1) by (auto dest: in_set_dropD)
    have "length (drop 16 rest) < length rest" using False by simp
    from less.hyps [OF this nb' rec] have ih:
      "submissions ?rec =
         map (\<lambda>i. (off + ?L + 16 * i, min 16 (length (drop 16 rest) - 16 * i),
                    encode (take 16 (drop (16 * i) (drop 16 rest)))))
           [0..<(length (drop 16 rest) + 15) div 16]" .
    let ?f = "\<lambda>i. (off + 16 * i, min 16 (length rest - 16 * i), encode (take 16 (drop (16 * i) rest)))"
    have f0: "?f 0 = (off, ?L, encode (take 16 rest))" by (simp add: min.commute)
    show ?thesis
    proof (cases "length rest \<le> 16")
      case True
      then have "(length (drop 16 rest) + 15) div 16 = 0" by simp
      with ih have r0: "submissions ?rec = []" by simp
      from True False have "(length rest + 15) div 16 = 1"
        by (cases rest) simp_all
      then have "[0..<(length rest + 15) div 16] = [0]" by simp
      then show ?thesis unfolding sub r0 by (simp only: list.map f0)
    next
      case False
      then have big: "16 \<le> length rest" by simp
      then have L: "?L = 16" by simp
      have cnt: "(length rest + 15) div 16 = Suc ((length (drop 16 rest) + 15) div 16)"
        using big by simp
      have shift: "(off + ?L + 16 * i, min 16 (length (drop 16 rest) - 16 * i),
                    encode (take 16 (drop (16 * i) (drop 16 rest)))) = ?f (Suc i)" for i
        unfolding L by (simp add: add.commute)
      have "map ?f [0..<Suc ((length (drop 16 rest) + 15) div 16)]
            = ?f 0 # map (\<lambda>i. ?f (Suc i)) [0..<(length (drop 16 rest) + 15) div 16]"
        by (simp only: upt_conv_Cons [of 0] zero_less_Suc list.map map_Suc_upt [symmetric] map_map comp_def)
      then show ?thesis unfolding sub ih cnt shift f0 by simp
    qed
  qed
qed

lemma outcome_prepend:
  assumes h: "list_all succeeds front" and o: "outcome pre st"
  shows "outcome (front @ pre) st"
proof -
  from o consider
      (ok) "list_all succeeds pre" "st = 0"
    | (rej) pre' off num data where "list_all succeeds pre'" "pre = pre' @ [Rejected off num data]"
        "st = - EIO"
    | (err) pre' status rq al where "list_all succeeds pre'" "pre = pre' @ [Completed status rq al]"
        "status \<noteq> FP_URB_COMPLETED" "st = - EIO"
    | (short) pre' rq al where "list_all succeeds pre'"
        "pre = pre' @ [Completed FP_URB_COMPLETED rq al]" "rq \<noteq> al" "st = - EPROTO"
    unfolding outcome_def by blast
  then show ?thesis
  proof cases
    case ok
    with h show ?thesis unfolding outcome_def by simp
  next
    case rej
    with h have "list_all succeeds (front @ pre')" "front @ pre = (front @ pre') @ [Rejected off num data]"
      by simp_all
    with rej(3) show ?thesis unfolding outcome_def by blast
  next
    case err
    with h have "list_all succeeds (front @ pre')" "front @ pre = (front @ pre') @ [Completed status rq al]"
      by simp_all
    with err(3,4) show ?thesis unfolding outcome_def by blast
  next
    case short
    with h have "list_all succeeds (front @ pre')"
      "front @ pre = (front @ pre') @ [Completed FP_URB_COMPLETED rq al]"
      by simp_all
    with short(3,4) show ?thesis unfolding outcome_def by blast
  qed
qed

lemma batch_run_outcome:
  "\<exists>pre st. batch_run tp k off rest = pre @ [Callback st] \<and> callbacks pre = [] \<and> outcome pre st"
proof (induction k off rest rule: batch_run_induct)
  case (finished k off rest)
  then have "batch_run tp k off rest = [] @ [Callback 0]"
    by (subst batch_run_unfold) simp
  moreover have "outcome [] 0" by (simp add: outcome_def)
  ultimately show ?case by (intro exI [of _ "[]"] exI [of _ 0]) simp
next
  case (batch k off rest tw rest1 batch)
  note U = batch_run_unfold [of tp k off rest, folded batch(1) batch(2), folded batch(4)]
  let ?data = "encode batch"
  let ?c1 = "CursorSet (of_nat (off + length tw))"
  let ?c2 = "CursorSet (of_nat (off + length tw + length batch))"
  let ?t = "Transfer (off + length tw) (length batch) ?data"
  let ?s = "fst (completes tp k ?data)" and ?al = "snd (completes tp k ?data)"
  let ?cp = "Completed ?s (int (length ?data)) ?al"
  show ?case
  proof (cases "accepts tp k ?data")
    case False
    then have "batch_run tp k off rest =
                 [?c1, Rejected (off + length tw) (length batch) ?data] @ [Callback (- EIO)]"
      unfolding U using batch(3) by simp
    moreover have "outcome [?c1, Rejected (off + length tw) (length batch) ?data] (- EIO)"
      unfolding outcome_def
      by (intro disjI2 disjI1 exI [of _ "[?c1]"] exI [of _ "off + length tw"]
            exI [of _ "length batch"] exI [of _ ?data]) simp
    ultimately show ?thesis
      by (intro exI [of _ "[?c1, Rejected (off + length tw) (length batch) ?data]"]
            exI [of _ "- EIO"]) simp
  next
    case acc: True
    show ?thesis
    proof (cases "?s \<noteq> FP_URB_COMPLETED")
      case True
      then have "batch_run tp k off rest = [?c1, ?t, ?c2, ?cp] @ [Callback (- EIO)]"
        unfolding U using batch(3) acc by simp
      moreover have "outcome [?c1, ?t, ?c2, ?cp] (- EIO)"
        unfolding outcome_def using True
        by (intro disjI2 disjI1 exI [of _ "[?c1, ?t, ?c2]"] exI [of _ ?s]
              exI [of _ "int (length ?data)"] exI [of _ ?al]) simp
      ultimately show ?thesis
        by (intro exI [of _ "[?c1, ?t, ?c2, ?cp]"] exI [of _ "- EIO"]) simp
    next
      case cmpl: False
      show ?thesis
      proof (cases "int (length ?data) \<noteq> ?al")
        case True
        then have "batch_run tp k off rest = [?c1, ?t, ?c2, ?cp] @ [Callback (- EPROTO)]"
          unfolding U using batch(3) acc cmpl by simp
        moreover have "outcome [?c1, ?t, ?c2, ?cp] (- EPROTO)"
          unfolding outcome_def using True cmpl
          by (intro disjI2 exI [of _ "[?c1, ?t, ?c2]"]
                exI [of _ "int (length ?data)"] exI [of _ ?al]) simp
        ultimately show ?thesis
          by (intro exI [of _ "[?c1, ?t, ?c2, ?cp]"] exI [of _ "- EPROTO"]) simp
      next
        case False
        from batch(5) obtain pre st where
          rec: "batch_run tp (k + 1) (off + length tw + length batch) (drop (length batch) rest1)
                  = pre @ [Callback st]"
          and cb: "callbacks pre = []" and oc: "outcome pre st" by blast
        have tr: "batch_run tp k off rest = ([?c1, ?t, ?c2, ?cp] @ pre) @ [Callback st]"
          unfolding U using batch(3) acc cmpl False rec by simp
        have "list_all succeeds [?c1, ?t, ?c2, ?cp]" using cmpl False by simp
        then have "outcome ([?c1, ?t, ?c2, ?cp] @ pre) st" using oc by (rule outcome_prepend)
        with tr cb show ?thesis
          by (intro exI [of _ "[?c1, ?t, ?c2, ?cp] @ pre"] exI [of _ st]) simp
      qed
    qed
  qed
qed

lemma submissions_append: "submissions (xs @ ys) = submissions xs @ submissions ys"
  by (induction xs rule: submissions.induct) simp_all

lemma completions_append: "completions (xs @ ys) = completions xs @ completions ys"
  by (induction xs rule: completions.induct) simp_all

lemma example_long_run:
  "aes_write_regv reliable
     [\<lparr>reg = 1, value = 0\<rparr>, \<lparr>reg = 2, value = 0\<rparr>,
     \<lparr>reg = 3, value = 0\<rparr>, \<lparr>reg = 4, value = 0\<rparr>,
     \<lparr>reg = 5, value = 0\<rparr>, \<lparr>reg = 6, value = 0\<rparr>,
     \<lparr>reg = 7, value = 0\<rparr>, \<lparr>reg = 8, value = 0\<rparr>,
     \<lparr>reg = 9, value = 0\<rparr>, \<lparr>reg = 10, value = 0\<rparr>,
     \<lparr>reg = 11, value = 0\<rparr>, \<lparr>reg = 12, value = 0\<rparr>,
     \<lparr>reg = 13, value = 0\<rparr>, \<lparr>reg = 14, value = 0\<rparr>,
     \<lparr>reg = 15, value = 0\<rparr>, \<lparr>reg = 16, value = 0\<rparr>,
     \<lparr>reg = 17, value = 0\<rparr>] 17 =
   Some [CursorSet 0, CursorSet 0,
      Transfer 0 16
        [1, 0, 2, 0, 3, 0, 4, 0, 5, 0, 6, 0, 7, 0, 8, 0, 9, 0, 10, 0, 11, 0, 12, 0, 13,
        0, 14, 0, 15, 0, 16, 0],
      CursorSet 16, Completed FP_URB_COMPLETED 32 32, CursorSet 16,
      Transfer 16 1 [17, 0], CursorSet 17, Completed FP_URB_COMPLETED 2 2, Callback 0]"
  by code_simp

lemma example_pair_run:
  "aes_write_regv reliable [\<lparr>reg = 1, value = 2\<rparr>, \<lparr>reg = 3, value = 4\<rparr>] 2 =
   Some [CursorSet 0, CursorSet 0, Transfer 0 2 [1, 2, 3, 4], CursorSet 2,
         Completed FP_URB_COMPLETED 4 4, Callback 0]"
  by code_simp

lemma example_short_transfer:
  "aes_write_regv \<lparr>accepts = (\<lambda>k data. True), completes = (\<lambda>k data. (FP_URB_COMPLETED, 1))\<rparr>
     [\<lparr>reg = 1, value = 2\<rparr>, \<lparr>reg = 0, value = 0\<rparr>, \<lparr>reg = 3, value = 4\<rparr>] 3 =
   Some ([CursorSet 0, CursorSet 0, Transfer 0 1 [1, 2], CursorSet 1,
          Completed FP_URB_COMPLETED 2 1] @ [Callback (- EPROTO)])"
  by code_simp

lemma example_cancelled:
  "aes_write_regv \<lparr>accepts = (\<lambda>k data. True), completes = (\<lambda>k data. (URB_CANCELLED, 0))\<rparr>
     [\<lparr>reg = 1, value = 2\<rparr>, \<lparr>reg = 0, value = 0\<rparr>, \<lparr>reg = 3, value = 4\<rparr>] 3 =
   Some ([CursorSet 0, CursorSet 0, Transfer 0 1 [1, 2], CursorSet 1,
          Completed URB_CANCELLED 2 0] @ [Callback (- EIO)])"
  by code_simp

lemma example_rejected:
  "aes_write_regv \<lparr>accepts = (\<lambda>k data. k = 0),
                   completes = (\<lambda>k data. (FP_URB_COMPLETED, int (length data)))\<rparr>
     [\<lparr>reg = 1, value = 2\<rparr>, \<lparr>reg = 0, value = 0\<rparr>, \<lparr>reg = 3, value = 4\<rparr>] 3 =
   Some ([CursorSet 0, CursorSet 0, Transfer 0 1 [1, 2], CursorSet 1,
          Completed FP_URB_COMPLETED 2 2, CursorSet 2, Rejected 2 1 [3, 4]] @ [Callback (- EIO)])"
  by code_simp

subsection \<open>Sequences that the counter of the second loop cannot index\<close>

text \<open>
  The counter \<^verbatim>\<open>i\<close> of the second loop of \<^verbatim>\<open>continue_write_regv\<close> is an \<^verbatim>\<open>int\<close>. When the
  cursor has reached \<open>2\<^sup>3\<^sup>1\<close> the counter starts at \<^verbatim>\<open>INT_MIN\<close>, the comparison with the
  unsigned bound holds, and \<^verbatim>\<open>wdata->regs[i]\<close> is read at a negative index: the operation has no
  trace. The first loop and the loop of \<^verbatim>\<open>do_write_regv\<close> index the array with
  \<^verbatim>\<open>unsigned int\<close> counters and reach every entry.
\<close>

lemma sint_negative: "2147483648 \<le> uint i \<Longrightarrow> sint i < 0" for i :: uint32
  using sint_nonneg [of i] by linarith

lemma find_upper_bound_fault:
  fixes i :: uint32
  assumes "i \<le> upper_bound" "2147483648 \<le> uint i"
  shows "find_upper_bound rs i upper_bound = None"
proof -
  from assms(2) have "sint i < 0" by (rule sint_negative)
  then have "regs_at rs (sint i) = None" by (simp add: regs_at_def)
  with assms(1) show ?thesis by (subst find_upper_bound.simps) simp
qed

lemma continue_write_regv_fault:
  assumes sk: "skip_zeros wdata (offset wdata) = NonZeroAt offs"
      and big: "2147483648 \<le> uint offs"
  shows "continue_write_regv submit wdata = None"
proof -
  define limit where "limit = (if num_regs wdata - offs < MAX_REGWRITES_PER_REQUEST
                                then num_regs wdata - offs else MAX_REGWRITES_PER_REQUEST)"
  from skip_zeros_NonZeroAt [OF sk] have lt: "offs < num_regs wdata" by simp
  note win = upper_bound_window [OF lt, folded limit_def]
  from win(1,2) have "uint offs \<le> uint (offs + limit - 1)" by linarith
  then have "offs \<le> offs + limit - 1" by (simp add: word_le_def)
  then have "find_upper_bound (regs wdata) offs (offs + limit - 1) = None"
    using big by (rule find_upper_bound_fault)
  moreover have "(if num_regs wdata - offs < MAX_REGWRITES_PER_REQUEST
                  then num_regs wdata - offs else MAX_REGWRITES_PER_REQUEST) = limit"
    by (simp only: limit_def)
  ultimately show ?thesis
    unfolding continue_write_regv_def sk
    by (simp add: Let_def cong: if_cong option.case_cong)
qed

lemma run_regv_fault:
  assumes "skip_zeros wdata (offset wdata) = NonZeroAt offs" "2147483648 \<le> uint offs"
  shows "run_regv tp k wdata = None"
  using continue_write_regv_fault [OF assms] by (subst run_regv.simps) simp

lemma skip_leading_barriers:
  fixes n :: uint32
  assumes len: "length rs = unat n"
      and rs: "rs = bs @ w # post" and bs: "\<forall>r\<in>set bs. reg r = 0" and w: "reg w \<noteq> 0"
  shows "skip_zeros \<lparr>num_regs = n, regs = rs, offset = 0\<rparr> 0 = NonZeroAt (of_nat (length bs))"
    and "uint (of_nat (length bs) :: uint32) = int (length bs)"
proof -
  have tw: "takeWhile (\<lambda>r. reg r = 0) rs = bs"
    unfolding rs using bs w by (simp add: takeWhile_append2)
  have dw: "dropWhile (\<lambda>r. reg r = 0) rs = w # post"
    unfolding rs using bs w by (simp add: dropWhile_append2)
  have "skip_zeros \<lparr>num_regs = n, regs = rs, offset = 0\<rparr> (of_nat 0) =
           (if dropWhile (\<lambda>r. reg r = 0) (drop 0 rs) = [] then AllWritten
            else NonZeroAt (of_nat (0 + length (takeWhile (\<lambda>r. reg r = 0) (drop 0 rs)))))"
    by (rule skip_zeros_batch [OF len]) simp_all
  then show "skip_zeros \<lparr>num_regs = n, regs = rs, offset = 0\<rparr> 0 = NonZeroAt (of_nat (length bs))"
    by (simp add: tw dw)
  have "length bs \<le> length rs" by (simp add: rs)
  with len show "uint (of_nat (length bs) :: uint32) = int (length bs)"
    by (rule uint_index32)
qed

lemma leading_barriers_fault:
  fixes n :: uint32
  assumes len: "length rs = unat n"
      and rs: "rs = bs @ w # post" and bs: "\<forall>r\<in>set bs. reg r = 0" and w: "reg w \<noteq> 0"
      and big: "2147483648 \<le> int (length bs)"
  shows "aes_write_regv tp rs n = None"
proof -
  note sk = skip_leading_barriers [OF len rs bs w]
  have "run_regv tp 0 \<lparr>num_regs = n, regs = rs, offset = 0\<rparr> = None"
    using sk(1) big by (intro run_regv_fault [where offs = "of_nat (length bs)"]) (simp_all add: sk(2))
  then show ?thesis by (simp add: aes_write_regv_def)
qed

text \<open>
  A sequence without barriers of more than \<open>2\<^sup>3\<^sup>1\<close> entries, on a transport that accepts and
  completes every transfer: the batches of 16 are written until the cursor is \<open>2\<^sup>3\<^sup>1\<close>.
\<close>

lemma run_regv_barrier_free_fault:
  fixes n :: uint32
  assumes len: "length rs = unat n" and nb: "\<forall>r\<in>set rs. reg r \<noteq> 0"
      and big: "2147483648 < int (length rs)"
  shows "int (16 * q) + int (16 * d) = 2147483648 \<Longrightarrow>
         run_regv reliable k \<lparr>num_regs = n, regs = rs, offset = of_nat (16 * q)\<rparr> = None"
proof (induction d arbitrary: q k)
  case 0
  define j where "j = 16 * q"
  define wdata where "wdata = \<lparr>num_regs = n, regs = rs, offset = of_nat j\<rparr>"
  from 0 have jv: "int j = 2147483648" by (simp add: j_def)
  with big have lt: "j < length rs" by linarith
  have nbd: "\<forall>r\<in>set (drop j rs). reg r \<noteq> 0" using nb by (auto dest: in_set_dropD)
  note nbb = no_barrier_batch [OF nbd]
  have ne: "drop j rs \<noteq> []" using lt by simp
  have "skip_zeros wdata (of_nat j) =
           (if dropWhile (\<lambda>r. reg r = 0) (drop j rs) = [] then AllWritten
            else NonZeroAt (of_nat (j + length (takeWhile (\<lambda>r. reg r = 0) (drop j rs)))))"
    using lt by (intro skip_zeros_batch [OF len]) (simp_all add: wdata_def)
  then have sk: "skip_zeros wdata (offset wdata) = NonZeroAt (of_nat j)"
    using ne by (simp add: nbb wdata_def)
  have "uint (of_nat j :: uint32) = int j"
    using len lt by (intro uint_index32 [of rs n]) simp_all
  with jv have "2147483648 \<le> uint (of_nat j :: uint32)" by (simp only:)
  with sk have "run_regv reliable k wdata = None" by (rule run_regv_fault)
  then show ?case by (simp only: wdata_def j_def)
next
  case (Suc d)
  define j where "j = 16 * q"
  define wdata where "wdata = \<lparr>num_regs = n, regs = rs, offset = of_nat j\<rparr>"
  define batch where "batch = take 16 (drop j rs)"
  from Suc.prems have jv: "int j + 16 \<le> 2147483648" by (simp add: j_def)
  with big have lt: "j + 16 < length rs" by linarith
  then have j: "j \<le> length rs" by simp
  have nbd: "\<forall>r\<in>set (drop j rs). reg r \<noteq> 0" using nb by (auto dest: in_set_dropD)
  note nbb = no_barrier_batch [OF nbd]
  have ne: "drop j rs \<noteq> []" using lt by simp
  have lb: "length batch = 16" using lt by (simp add: batch_def)
  have fit: "int (j + length (takeWhile (\<lambda>r. reg r = 0) (drop j rs)) +
                     min (length (dropWhile (\<lambda>r. reg r = 0) (drop j rs))) 16) \<le> 2147483648"
    unfolding nbb using lt jv by simp
  have z: "j + length ([] :: aes_regwrite list) = j" by simp
  note cw = continue_write_regv_batch(1) [OF len j wdata_def fit, of "accepts reliable k",
      unfolded nbb z, folded batch_def, unfolded lb]
  have acc: "accepts reliable k (encode batch)" by (simp add: reliable_def)
  have c: "continue_write_regv (accepts reliable k) wdata =
             Some ([CursorSet (of_nat j), Transfer j 16 (encode batch), CursorSet (of_nat (j + 16))],
                   wdata\<lparr>offset := of_nat (j + 16)\<rparr>,
                   Some \<lparr>urb_data = encode batch, urb_length = int (length (encode batch))\<rparr>)"
    using cw ne acc by (simp only: if_False if_True)
  have cp: "completes reliable k (encode batch) = (FP_URB_COMPLETED, int (length (encode batch)))"
    by (simp add: reliable_def)
  have tc: "write_regv_trf_complete FP_URB_COMPLETED (int (length (encode batch)))
              (int (length (encode batch))) = Continue"
    by (simp add: write_regv_trf_complete_def)
  have "int (16 * Suc q) + int (16 * d) = 2147483648" using Suc.prems by simp
  then have "run_regv reliable (k + 1) \<lparr>num_regs = n, regs = rs, offset = of_nat (16 * Suc q)\<rparr> = None"
    by (rule Suc.IH)
  moreover have "16 * Suc q = j + 16" by (simp add: j_def)
  ultimately have "run_regv reliable (k + 1) \<lparr>num_regs = n, regs = rs, offset = of_nat (j + 16)\<rparr> = None"
    by (simp only:)
  moreover have "wdata\<lparr>offset := of_nat (j + 16)\<rparr> = \<lparr>num_regs = n, regs = rs, offset = of_nat (j + 16)\<rparr>"
    by (simp add: wdata_def)
  ultimately have ih: "run_regv reliable (k + 1) (wdata\<lparr>offset := of_nat (j + 16)\<rparr>) = None"
    by (simp only:)
  then have ih': "run_regv reliable (Suc k) (wdata\<lparr>offset := of_nat j + 16\<rparr>) = None"
    by simp
  have "run_regv reliable k wdata = None"
    by (subst run_regv.simps) (simp add: c cp tc ih')
  then show ?case by (simp only: wdata_def j_def)
qed

lemma barrier_free_fault:
  fixes n :: uint32
  assumes len: "length rs = unat n" and nb: "\<forall>r\<in>set rs. reg r \<noteq> 0"
      and big: "2147483648 < int (length rs)"
  shows "aes_write_regv reliable rs n = None"
proof -
  have "int (16 * 0) + int (16 * 134217728) = 2147483648" by simp
  then have "run_regv reliable 0 \<lparr>num_regs = n, regs = rs, offset = of_nat (16 * 0)\<rparr> = None"
    by (rule run_regv_barrier_free_fault [OF len nb big])
  then show ?thesis by (simp add: aes_write_regv_def)
qed

subsection \<open>The claims about aes_write_regv\<close>

text \<open>
  Claim C8. An operation started with \<^verbatim>\<open>num_regs = 0\<close> invokes the callback once, with
  status 0, and submits no transfer: its trace is the initial assignment to the cursor and
  the callback.
\<close>

theorem empty_sequence:
  "aes_write_regv tp rs 0 = Some [CursorSet 0, Callback 0] \<and>
   callbacks [CursorSet 0, Callback 0] = [0] \<and>
   submissions [CursorSet 0, Callback 0] = []"
  by (simp add: aes_write_regv_def run_regv.simps continue_write_regv_def skip_zeros.simps)






text \<open>
  Claim C6. Every operation started with \<^verbatim>\<open>aes_write_regv\<close> on a sequence of at most
  \<^verbatim>\<open>INT_MAX\<close> entries invokes the callback exactly once, whatever the transport answers to its
  submissions: the run returns a trace and the trace has one callback event.
\<close>

theorem callback_exactly_once:
  fixes n :: uint32
  assumes len: "length rs = unat n" and max: "n \<le> 0x7FFFFFFF"
  shows "\<exists>tr. aes_write_regv tp rs n = Some tr \<and> length (callbacks tr) = 1"
  using aes_write_regv_batch [OF len max, of tp] callbacks_batch_run [of tp 0 0 rs]
  by simp

theorem callback_exactly_once_witness:
  "aes_write_regv reliable
     [\<lparr>reg = 1, value = 2\<rparr>, \<lparr>reg = 0, value = 0\<rparr>, \<lparr>reg = 3, value = 4\<rparr>] 3 =
   Some [CursorSet 0, CursorSet 0, Transfer 0 1 [1, 2], CursorSet 1,
         Completed FP_URB_COMPLETED 2 2, CursorSet 2, Transfer 2 1 [3, 4],
         CursorSet 3, Completed FP_URB_COMPLETED 2 2, Callback 0] \<and>
   length (callbacks [CursorSet 0, CursorSet 0, Transfer 0 1 [1, 2], CursorSet 1,
         Completed FP_URB_COMPLETED 2 2, CursorSet 2, Transfer 2 1 [3, 4],
         CursorSet 3, Completed FP_URB_COMPLETED 2 2, Callback 0]) = 1"
  using callback_exactly_once [OF example_valid, of reliable] example_run by simp

text \<open>
  Claim C6 without the bound on the length. On \<open>2\<^sup>3\<^sup>1\<close> barriers and one register write
  the first loop leaves at the index \<open>2\<^sup>3\<^sup>1\<close>, the second loop reads \<^verbatim>\<open>regs[i]\<close> at
  \<^verbatim>\<open>i = INT_MIN\<close>, outside the array, and the operation has no trace: no callback is made.
\<close>

theorem callback_exactly_once_overlong:
  "aes_write_regv reliable
     (replicate 2147483648 \<lparr>reg = 0, value = 0\<rparr> @ [\<lparr>reg = 3, value = 4\<rparr>]) 0x80000001 = None"
  by (rule leading_barriers_fault
        [where bs = "replicate 2147483648 \<lparr>reg = 0, value = 0\<rparr>"
           and w = "\<lparr>reg = 3, value = 4\<rparr>" and post = "[]"])
     simp_all

text \<open>
  Claim C5. In an operation on a sequence of at most \<^verbatim>\<open>INT_MAX\<close> entries, every value assigned
  to the cursor \<^verbatim>\<open>wdata->offset\<close> is between 0 and \<^verbatim>\<open>num_regs\<close>, and every transfer submitted
  packs between 1 and
  \<^verbatim>\<open>MAX_REGWRITES_PER_REQUEST\<close> register writes, which are a contiguous run of the sequence
  with no barrier in it.
\<close>

theorem cursor_and_batch_invariants:
  fixes n :: uint32
  assumes len: "length rs = unat n" and max: "n \<le> 0x7FFFFFFF"
  shows "\<exists>tr. aes_write_regv tp rs n = Some tr \<and>
     (\<forall>c. CursorSet c \<in> set tr \<longrightarrow> 0 \<le> c \<and> c \<le> n) \<and>
     (\<forall>(off, num, data) \<in> set (submissions tr).
        1 \<le> num \<and> num \<le> unat MAX_REGWRITES_PER_REQUEST \<and> off + num \<le> length rs \<and>
        data = encode (take num (drop off rs)) \<and>
        (\<forall>i. off \<le> i \<and> i < off + num \<longrightarrow> reg (rs ! i) \<noteq> 0))"
proof -
  let ?tr = "CursorSet 0 # batch_run tp 0 0 rs"
  have run: "aes_write_regv tp rs n = Some ?tr"
    using len max by (rule aes_write_regv_batch)
  have cur: "0 \<le> c \<and> c \<le> n" if "CursorSet c \<in> set ?tr" for c
  proof (cases "c = 0")
    case True
    then show ?thesis by simp
  next
    case False
    with that have "CursorSet c \<in> set (batch_run tp 0 0 rs)" by simp
    from cursor_range [OF this] obtain j where j: "j \<le> length rs" "c = of_nat j" by auto
    then have "unat c = j" using len by (simp add: unat_index32 [of rs n])
    with j len have "unat c \<le> unat n" by simp
    then show ?thesis by (simp add: word_le_nat_alt)
  qed
  have sub: "1 \<le> num \<and> num \<le> unat MAX_REGWRITES_PER_REQUEST \<and> off + num \<le> length rs \<and>
        data = encode (take num (drop off rs)) \<and>
        (\<forall>i. off \<le> i \<and> i < off + num \<longrightarrow> reg (rs ! i) \<noteq> 0)"
    if "(off, num, data) \<in> set (submissions ?tr)" for off num data
  proof -
    from that have "(off, num, data) \<in> set (submissions (batch_run tp 0 0 rs))" by simp
    from submission_range [OF this] have
      r: "1 \<le> num" "num \<le> 16" "off + num \<le> length rs"
         "data = encode (take num (drop off rs))"
         "\<forall>r\<in>set (take num (drop off rs)). reg r \<noteq> 0"
      by simp_all
    have "reg (rs ! i) \<noteq> 0" if i: "off \<le> i" "i < off + num" for i
    proof -
      have "i - off < length (take num (drop off rs))" using i r(3) by simp
      then have "take num (drop off rs) ! (i - off) \<in> set (take num (drop off rs))"
        by (rule nth_mem)
      moreover have "take num (drop off rs) ! (i - off) = rs ! i"
        using i r(3) by simp
      ultimately show ?thesis using r(5) by auto
    qed
    with r show ?thesis by (simp add: MAX_REGWRITES_PER_REQUEST_def)
  qed
  from run cur sub show ?thesis by blast
qed

theorem cursor_and_batch_invariants_witness:
  "aes_write_regv reliable
     [\<lparr>reg = 1, value = 2\<rparr>, \<lparr>reg = 0, value = 0\<rparr>, \<lparr>reg = 3, value = 4\<rparr>] 3 =
   Some [CursorSet 0, CursorSet 0, Transfer 0 1 [1, 2], CursorSet 1,
         Completed FP_URB_COMPLETED 2 2, CursorSet 2, Transfer 2 1 [3, 4],
         CursorSet 3, Completed FP_URB_COMPLETED 2 2, Callback 0] \<and>
   (2 :: uint32) \<le> 3 \<and> (3 :: uint32) \<le> 3 \<and>
   [3, 4] = encode (take 1 (drop 2
     [\<lparr>reg = 1, value = 2\<rparr>, \<lparr>reg = 0, value = 0\<rparr>, \<lparr>reg = 3, value = 4\<rparr>]))"
  using cursor_and_batch_invariants [OF example_valid, of reliable] example_run
  by (simp add: encode_def)

text \<open>
  Claim C5 without the bound on the length. On \<open>2\<^sup>3\<^sup>1\<close> barriers and two register writes
  the cursor is set to \<open>2\<^sup>3\<^sup>1\<close> and the second loop reads \<^verbatim>\<open>regs[i]\<close> at \<^verbatim>\<open>i = INT_MIN\<close>,
  outside the array: the operation has no trace, and nothing is known of the transfer that
  should pack the two writes.
\<close>

theorem cursor_and_batch_invariants_overlong:
  "aes_write_regv reliable
     (replicate 2147483648 \<lparr>reg = 0, value = 0\<rparr> @
      [\<lparr>reg = 1, value = 2\<rparr>, \<lparr>reg = 3, value = 4\<rparr>]) 0x80000002 = None"
  by (rule leading_barriers_fault
        [where bs = "replicate 2147483648 \<lparr>reg = 0, value = 0\<rparr>"
           and w = "\<lparr>reg = 1, value = 2\<rparr>" and post = "[\<lparr>reg = 3, value = 4\<rparr>]"])
     simp_all

text \<open>
  Claim C2. For a sequence of at most \<^verbatim>\<open>INT_MAX\<close> entries: when every submission and every
  completion of an operation succeeds, the payloads of the transfers, concatenated in the
  order of submission, are the entries of
  the sequence that are not barriers, in their order, each as the two bytes register and
  value; no transfer has writes from both sides of a barrier, and no register byte of a
  payload is 0.
\<close>

theorem payloads_in_order:
  fixes n :: uint32
  assumes len: "length rs = unat n" and max: "n \<le> 0x7FFFFFFF"
  shows "\<exists>tr. aes_write_regv tp rs n = Some tr \<and>
     (list_all succeeds tr \<longrightarrow>
        concat (map (snd \<circ> snd) (submissions tr)) = encode (filter (\<lambda>r. reg r \<noteq> 0) rs) \<and>
        (\<forall>(off, num, data) \<in> set (submissions tr).
           off + num \<le> length rs \<and> data = encode (take num (drop off rs)) \<and>
           (\<forall>k<length rs. reg (rs ! k) = 0 \<longrightarrow> k < off \<or> off + num \<le> k) \<and>
           (\<forall>i<num. data ! (2 * i) = reg (rs ! (off + i)) \<and> data ! (2 * i) \<noteq> 0)))"
proof -
  let ?tr = "CursorSet 0 # batch_run tp 0 0 rs"
  have run: "aes_write_regv tp rs n = Some ?tr"
    using len max by (rule aes_write_regv_batch)
  have cat: "concat (map (snd \<circ> snd) (submissions ?tr)) = encode (filter (\<lambda>r. reg r \<noteq> 0) rs)"
    if "list_all succeeds ?tr"
    using that success_payloads [of tp 0 0 rs] by simp
  have sub: "off + num \<le> length rs \<and> data = encode (take num (drop off rs)) \<and>
           (\<forall>k<length rs. reg (rs ! k) = 0 \<longrightarrow> k < off \<or> off + num \<le> k) \<and>
           (\<forall>i<num. data ! (2 * i) = reg (rs ! (off + i)) \<and> data ! (2 * i) \<noteq> 0)"
    if "(off, num, data) \<in> set (submissions ?tr)" for off num data
  proof -
    from that have "(off, num, data) \<in> set (submissions (batch_run tp 0 0 rs))" by simp
    from submission_range [OF this] have
      r: "off + num \<le> length rs"
         "data = encode (take num (drop off rs))"
         "\<forall>r\<in>set (take num (drop off rs)). reg r \<noteq> 0"
      by simp_all
    have nz: "reg (rs ! i) \<noteq> 0" if i: "off \<le> i" "i < off + num" for i
    proof -
      have "i - off < length (take num (drop off rs))" using i r(1) by simp
      then have "take num (drop off rs) ! (i - off) \<in> set (take num (drop off rs))"
        by (rule nth_mem)
      moreover have "take num (drop off rs) ! (i - off) = rs ! i"
        using i r(1) by simp
      ultimately show ?thesis using r(3) by auto
    qed
    have bar: "\<forall>k<length rs. reg (rs ! k) = 0 \<longrightarrow> k < off \<or> off + num \<le> k"
      using nz by (metis not_le_imp_less)
    have enc: "encode xs ! (2 * i) = reg (xs ! i)" if "i < length xs" for xs i
      using that
    proof (induction xs arbitrary: i)
      case Nil
      then show ?case by simp
    next
      case (Cons x xs)
      then show ?case by (cases i) (simp_all add: encode_def)
    qed
    have dat: "data ! (2 * i) = reg (rs ! (off + i)) \<and> data ! (2 * i) \<noteq> 0" if "i < num" for i
    proof -
      have "i < length (take num (drop off rs))" using that r(1) by simp
      then have "data ! (2 * i) = reg (take num (drop off rs) ! i)"
        unfolding r(2) by (rule enc)
      also have "take num (drop off rs) ! i = rs ! (off + i)" using that r(1) by simp
      finally show ?thesis using nz [of "off + i"] that by simp
    qed
    from dat have dat': "\<forall>i<num. data ! (2 * i) = reg (rs ! (off + i)) \<and> data ! (2 * i) \<noteq> 0"
      by blast
    from r(1) r(2) bar dat' show ?thesis by (intro conjI)
  qed
  from run cat sub show ?thesis by blast
qed

theorem payloads_in_order_witness:
  "aes_write_regv reliable
     [\<lparr>reg = 1, value = 2\<rparr>, \<lparr>reg = 0, value = 0\<rparr>, \<lparr>reg = 3, value = 4\<rparr>] 3 =
   Some [CursorSet 0, CursorSet 0, Transfer 0 1 [1, 2], CursorSet 1,
         Completed FP_URB_COMPLETED 2 2, CursorSet 2, Transfer 2 1 [3, 4],
         CursorSet 3, Completed FP_URB_COMPLETED 2 2, Callback 0] \<and>
   list_all succeeds [CursorSet 0, CursorSet 0, Transfer 0 1 [1, 2], CursorSet 1,
         Completed FP_URB_COMPLETED 2 2, CursorSet 2, Transfer 2 1 [3, 4],
         CursorSet 3, Completed FP_URB_COMPLETED 2 2, Callback 0] \<and>
   concat (map (snd \<circ> snd) (submissions [CursorSet 0, CursorSet 0, Transfer 0 1 [1, 2], CursorSet 1,
         Completed FP_URB_COMPLETED 2 2, CursorSet 2, Transfer 2 1 [3, 4],
         CursorSet 3, Completed FP_URB_COMPLETED 2 2, Callback 0])) =
     encode (filter (\<lambda>r. reg r \<noteq> 0)
       [\<lparr>reg = 1, value = 2\<rparr>, \<lparr>reg = 0, value = 0\<rparr>, \<lparr>reg = 3, value = 4\<rparr>])"
  using payloads_in_order [OF example_valid, of reliable] example_run by (simp add: encode_def)

text \<open>
  Claim C2 without the bound on the length. On \<open>2\<^sup>3\<^sup>1\<close> barriers and the register write
  (5, 6), with a transport that accepts and completes every transfer, the payloads should
  be the bytes 5, 6. The second loop reads \<^verbatim>\<open>regs[i]\<close> at \<^verbatim>\<open>i = INT_MIN\<close>, outside the array,
  and the operation has no trace.
\<close>

theorem payloads_in_order_overlong:
  "aes_write_regv reliable
     (replicate 2147483648 \<lparr>reg = 0, value = 0\<rparr> @ [\<lparr>reg = 5, value = 6\<rparr>]) 0x80000001 = None"
  by (rule leading_barriers_fault
        [where bs = "replicate 2147483648 \<lparr>reg = 0, value = 0\<rparr>"
           and w = "\<lparr>reg = 5, value = 6\<rparr>" and post = "[]"])
     simp_all

text \<open>
  Claim C3. For a sequence without barriers: when it has between 1 and
  \<^verbatim>\<open>MAX_REGWRITES_PER_REQUEST\<close> = 16 writes, one transfer is submitted, with all the writes in
  order; and when it has at most \<^verbatim>\<open>INT_MAX\<close> entries, which a sequence of 1 to 16 writes has,
  and all transfers succeed, \<open>ceil(n / 16)\<close> transfers are submitted, the
  \<open>i\<close>-th with the writes from index \<open>16 * i\<close> on, 16 of them in each transfer but the
  last, and the payloads together are the sequence.
\<close>

theorem barrier_free_batches:
  fixes n :: uint32
  assumes len: "length rs = unat n" and max: "n \<le> 0x7FFFFFFF"
      and nb: "\<forall>r\<in>set rs. reg r \<noteq> 0"
  shows "\<exists>tr. aes_write_regv tp rs n = Some tr \<and>
     (1 \<le> length rs \<and> length rs \<le> unat MAX_REGWRITES_PER_REQUEST \<longrightarrow>
        submissions tr = [(0, length rs, encode rs)]) \<and>
     (list_all succeeds tr \<longrightarrow>
        length (submissions tr) = (length rs + 15) div 16 \<and>
        (\<forall>i<length (submissions tr).
           submissions tr ! i =
             (16 * i, min 16 (length rs - 16 * i), encode (take 16 (drop (16 * i) rs)))) \<and>
        (\<forall>i. i + 1 < length (submissions tr) \<longrightarrow> fst (snd (submissions tr ! i)) = 16) \<and>
        concat (map (snd \<circ> snd) (submissions tr)) = encode rs)"
proof -
  let ?tr = "CursorSet 0 # batch_run tp 0 0 rs"
  let ?f = "\<lambda>i. (0 + 16 * i, min 16 (length rs - 16 * i), encode (take 16 (drop (16 * i) rs)))"
  let ?m = "(length rs + 15) div 16"
  have run: "aes_write_regv tp rs n = Some ?tr"
    using len max by (rule aes_write_regv_batch)
  have one: "submissions ?tr = [(0, length rs, encode rs)]"
    if "1 \<le> length rs \<and> length rs \<le> unat MAX_REGWRITES_PER_REQUEST"
    using that single_batch [OF nb, of tp 0 0] by (simp add: MAX_REGWRITES_PER_REQUEST_def)
  have many: "length (submissions ?tr) = ?m \<and>
        (\<forall>i<length (submissions ?tr). submissions ?tr ! i =
             (16 * i, min 16 (length rs - 16 * i), encode (take 16 (drop (16 * i) rs)))) \<and>
        (\<forall>i. i + 1 < length (submissions ?tr) \<longrightarrow> fst (snd (submissions ?tr ! i)) = 16) \<and>
        concat (map (snd \<circ> snd) (submissions ?tr)) = encode rs"
    if ok: "list_all succeeds ?tr"
  proof -
    from ok have ok': "list_all succeeds (batch_run tp 0 0 rs)" by simp
    have s: "submissions ?tr = map ?f [0..<?m]"
      using chunked_batches [OF nb ok'] by simp
    have l: "length (submissions ?tr) = ?m" unfolding s by simp
    have nth: "submissions ?tr ! i = (16 * i, min 16 (length rs - 16 * i),
                 encode (take 16 (drop (16 * i) rs)))" if "i < ?m" for i
      unfolding s using that by simp
    have full: "fst (snd (submissions ?tr ! i)) = 16" if "i + 1 < ?m" for i
    proof -
      have "16 * ?m \<le> length rs + 15" by simp
      with that have big: "16 \<le> length rs - 16 * i" by linarith
      from that have "i < ?m" by simp
      from nth [OF this] have "fst (snd (submissions ?tr ! i)) = min 16 (length rs - 16 * i)"
        by (simp only: fst_conv snd_conv)
      with big show ?thesis by (simp only: min_absorb1)
    qed
    have "filter (\<lambda>r. reg r \<noteq> 0) rs = rs" using nb by (rule filter_all)
    then have cat: "concat (map (snd \<circ> snd) (submissions ?tr)) = encode rs"
      using success_payloads [OF ok'] by simp
    from l nth full cat show ?thesis by simp
  qed
  from run one many show ?thesis by blast
qed

theorem barrier_free_batches_witness:
  "aes_write_regv reliable
     [\<lparr>reg = 1, value = 0\<rparr>, \<lparr>reg = 2, value = 0\<rparr>,
     \<lparr>reg = 3, value = 0\<rparr>, \<lparr>reg = 4, value = 0\<rparr>,
     \<lparr>reg = 5, value = 0\<rparr>, \<lparr>reg = 6, value = 0\<rparr>,
     \<lparr>reg = 7, value = 0\<rparr>, \<lparr>reg = 8, value = 0\<rparr>,
     \<lparr>reg = 9, value = 0\<rparr>, \<lparr>reg = 10, value = 0\<rparr>,
     \<lparr>reg = 11, value = 0\<rparr>, \<lparr>reg = 12, value = 0\<rparr>,
     \<lparr>reg = 13, value = 0\<rparr>, \<lparr>reg = 14, value = 0\<rparr>,
     \<lparr>reg = 15, value = 0\<rparr>, \<lparr>reg = 16, value = 0\<rparr>,
     \<lparr>reg = 17, value = 0\<rparr>] 17 =
   Some [CursorSet 0, CursorSet 0,
      Transfer 0 16
        [1, 0, 2, 0, 3, 0, 4, 0, 5, 0, 6, 0, 7, 0, 8, 0, 9, 0, 10, 0, 11, 0, 12, 0, 13,
        0, 14, 0, 15, 0, 16, 0],
      CursorSet 16, Completed FP_URB_COMPLETED 32 32, CursorSet 16,
      Transfer 16 1 [17, 0], CursorSet 17, Completed FP_URB_COMPLETED 2 2, Callback 0] \<and>
   length (submissions [CursorSet 0, CursorSet 0,
      Transfer 0 16
        [1, 0, 2, 0, 3, 0, 4, 0, 5, 0, 6, 0, 7, 0, 8, 0, 9, 0, 10, 0, 11, 0, 12, 0, 13,
        0, 14, 0, 15, 0, 16, 0],
      CursorSet 16, Completed FP_URB_COMPLETED 32 32, CursorSet 16,
      Transfer 16 1 [17, 0], CursorSet 17, Completed FP_URB_COMPLETED 2 2, Callback 0]) = (17 + 15) div 16 \<and>
   fst (snd (submissions [CursorSet 0, CursorSet 0,
      Transfer 0 16
        [1, 0, 2, 0, 3, 0, 4, 0, 5, 0, 6, 0, 7, 0, 8, 0, 9, 0, 10, 0, 11, 0, 12, 0, 13,
        0, 14, 0, 15, 0, 16, 0],
      CursorSet 16, Completed FP_URB_COMPLETED 32 32, CursorSet 16,
      Transfer 16 1 [17, 0], CursorSet 17, Completed FP_URB_COMPLETED 2 2, Callback 0] ! 0)) = 16 \<and>
   aes_write_regv reliable [\<lparr>reg = 1, value = 2\<rparr>, \<lparr>reg = 3, value = 4\<rparr>] 2 =
   Some [CursorSet 0, CursorSet 0, Transfer 0 2 [1, 2, 3, 4], CursorSet 2,
         Completed FP_URB_COMPLETED 4 4, Callback 0] \<and>
   submissions [CursorSet 0, CursorSet 0, Transfer 0 2 [1, 2, 3, 4], CursorSet 2,
         Completed FP_URB_COMPLETED 4 4, Callback 0] =
     [(0, 2, encode [\<lparr>reg = 1, value = 2\<rparr>, \<lparr>reg = 3, value = 4\<rparr>])]"
proof -
  let ?long = "[\<lparr>reg = 1, value = 0\<rparr>, \<lparr>reg = 2, value = 0\<rparr>,
     \<lparr>reg = 3, value = 0\<rparr>, \<lparr>reg = 4, value = 0\<rparr>,
     \<lparr>reg = 5, value = 0\<rparr>, \<lparr>reg = 6, value = 0\<rparr>,
     \<lparr>reg = 7, value = 0\<rparr>, \<lparr>reg = 8, value = 0\<rparr>,
     \<lparr>reg = 9, value = 0\<rparr>, \<lparr>reg = 10, value = 0\<rparr>,
     \<lparr>reg = 11, value = 0\<rparr>, \<lparr>reg = 12, value = 0\<rparr>,
     \<lparr>reg = 13, value = 0\<rparr>, \<lparr>reg = 14, value = 0\<rparr>,
     \<lparr>reg = 15, value = 0\<rparr>, \<lparr>reg = 16, value = 0\<rparr>,
     \<lparr>reg = 17, value = 0\<rparr>]"
  have l1: "length ?long = unat (17 :: uint32)" by simp
  have l2: "(17 :: uint32) \<le> 0x7FFFFFFF" by simp
  have l3: "\<forall>r\<in>set ?long. reg r \<noteq> 0" by simp
  have p1: "length [\<lparr>reg = 1, value = 2 :: byte\<rparr>, \<lparr>reg = 3, value = 4\<rparr>] = unat (2 :: uint32)"
    by simp
  have p2: "(2 :: uint32) \<le> 0x7FFFFFFF" by simp
  have p3: "\<forall>r\<in>set [\<lparr>reg = 1, value = 2 :: byte\<rparr>, \<lparr>reg = 3, value = 4\<rparr>]. reg r \<noteq> 0" by simp
  from barrier_free_batches [OF l1 l2 l3, of reliable] example_long_run
  have a: "length (submissions [CursorSet 0, CursorSet 0,
      Transfer 0 16
        [1, 0, 2, 0, 3, 0, 4, 0, 5, 0, 6, 0, 7, 0, 8, 0, 9, 0, 10, 0, 11, 0, 12, 0, 13,
        0, 14, 0, 15, 0, 16, 0],
      CursorSet 16, Completed FP_URB_COMPLETED 32 32, CursorSet 16,
      Transfer 16 1 [17, 0], CursorSet 17, Completed FP_URB_COMPLETED 2 2, Callback 0]) = (17 + 15) div 16 \<and>
   fst (snd (submissions [CursorSet 0, CursorSet 0,
      Transfer 0 16
        [1, 0, 2, 0, 3, 0, 4, 0, 5, 0, 6, 0, 7, 0, 8, 0, 9, 0, 10, 0, 11, 0, 12, 0, 13,
        0, 14, 0, 15, 0, 16, 0],
      CursorSet 16, Completed FP_URB_COMPLETED 32 32, CursorSet 16,
      Transfer 16 1 [17, 0], CursorSet 17, Completed FP_URB_COMPLETED 2 2, Callback 0] ! 0)) = 16"
    by simp
  from barrier_free_batches [OF p1 p2 p3, of reliable] example_pair_run
  have b: "submissions [CursorSet 0, CursorSet 0, Transfer 0 2 [1, 2, 3, 4], CursorSet 2,
         Completed FP_URB_COMPLETED 4 4, Callback 0] =
     [(0, 2, encode [\<lparr>reg = 1, value = 2\<rparr>, \<lparr>reg = 3, value = 4\<rparr>])]"
    by (simp add: MAX_REGWRITES_PER_REQUEST_def)
  from a b example_long_run example_pair_run show ?thesis by (simp only: simp_thms)
qed

text \<open>
  Claim C3 without the bound on the length. On \<open>2\<^sup>3\<^sup>1 + 1\<close> register writes without a
  barrier, with a transport that accepts and completes every transfer, 134217729 transfers
  should be submitted. After \<open>2\<^sup>2\<^sup>7\<close> transfers of 16 writes the cursor is \<open>2\<^sup>3\<^sup>1\<close>, the second
  loop reads \<^verbatim>\<open>regs[i]\<close> at \<^verbatim>\<open>i = INT_MIN\<close>, outside the array, and the operation has no trace.
\<close>

theorem barrier_free_batches_overlong:
  "aes_write_regv reliable
     (replicate 2147483649 \<lparr>reg = 1, value = 0\<rparr>) 0x80000001 = None"
  by (rule barrier_free_fault) simp_all

text \<open>
  Claim C4. Every operation on a sequence of at most \<^verbatim>\<open>INT_MAX\<close> entries ends with one
  callback, the last event of its trace. An
  operation with a failure has exactly one, the event just before the callback, so that
  nothing is submitted after it: a refused submission or a completion reporting a
  transport failure gives the status \<^verbatim>\<open>-EIO\<close>, a completion whose actual length is not the
  requested one gives \<^verbatim>\<open>-EPROTO\<close>, and both are negative. The status is 0 only in an
  operation without failure, and then the payloads are all the writes that are not barriers
  and every transfer has its completion, with the completed status and its full length.
\<close>

theorem failure_reporting:
  fixes n :: uint32
  assumes len: "length rs = unat n" and max: "n \<le> 0x7FFFFFFF"
  shows "\<exists>pre st. aes_write_regv tp rs n = Some (pre @ [Callback st]) \<and> callbacks pre = [] \<and>
     ((list_all succeeds pre \<and> st = 0 \<and>
         concat (map (snd \<circ> snd) (submissions pre)) = encode (filter (\<lambda>r. reg r \<noteq> 0) rs) \<and>
         completions pre =
           map (\<lambda>(off, num, data). (FP_URB_COMPLETED, int (length data), int (length data)))
             (submissions pre)) \<or>
      (\<exists>pre' off num data. list_all succeeds pre' \<and> pre = pre' @ [Rejected off num data] \<and>
         st = - EIO) \<or>
      (\<exists>pre' status rq al. list_all succeeds pre' \<and> pre = pre' @ [Completed status rq al] \<and>
         status \<noteq> FP_URB_COMPLETED \<and> st = - EIO) \<or>
      (\<exists>pre' rq al. list_all succeeds pre' \<and> pre = pre' @ [Completed FP_URB_COMPLETED rq al] \<and>
         rq \<noteq> al \<and> st = - EPROTO)) \<and>
     - EIO < 0 \<and> - EPROTO < 0"
proof -
  from batch_run_outcome [of tp 0 0 rs] obtain pre0 st where
    br: "batch_run tp 0 0 rs = pre0 @ [Callback st]" and cb: "callbacks pre0 = []"
    and oc: "outcome pre0 st" by blast
  let ?pre = "CursorSet 0 # pre0"
  have run: "aes_write_regv tp rs n = Some (?pre @ [Callback st])"
    using aes_write_regv_batch [OF len max, of tp] br by simp
  have cb': "callbacks ?pre = []" using cb by simp
  have "list_all succeeds [CursorSet 0]" by simp
  then have "outcome ([CursorSet 0] @ pre0) st" using oc by (rule outcome_prepend)
  then have oc': "outcome ?pre st" by simp
  have good: "concat (map (snd \<circ> snd) (submissions ?pre)) = encode (filter (\<lambda>r. reg r \<noteq> 0) rs) \<and>
         completions ?pre =
           map (\<lambda>(off, num, data). (FP_URB_COMPLETED, int (length data), int (length data)))
             (submissions ?pre)"
    if "list_all succeeds ?pre"
  proof -
    from that have "list_all succeeds (batch_run tp 0 0 rs)" unfolding br by simp
    from success_payloads [OF this] show ?thesis
      unfolding br by (simp add: submissions_append completions_append)
  qed
  have neg: "- EIO < 0" "- EPROTO < 0" by (simp_all add: EIO_def EPROTO_def)
  from oc' good have "(list_all succeeds ?pre \<and> st = 0 \<and>
         concat (map (snd \<circ> snd) (submissions ?pre)) = encode (filter (\<lambda>r. reg r \<noteq> 0) rs) \<and>
         completions ?pre =
           map (\<lambda>(off, num, data). (FP_URB_COMPLETED, int (length data), int (length data)))
             (submissions ?pre)) \<or>
      (\<exists>pre' off num data. list_all succeeds pre' \<and> ?pre = pre' @ [Rejected off num data] \<and>
         st = - EIO) \<or>
      (\<exists>pre' status rq al. list_all succeeds pre' \<and> ?pre = pre' @ [Completed status rq al] \<and>
         status \<noteq> FP_URB_COMPLETED \<and> st = - EIO) \<or>
      (\<exists>pre' rq al. list_all succeeds pre' \<and> ?pre = pre' @ [Completed FP_URB_COMPLETED rq al] \<and>
         rq \<noteq> al \<and> st = - EPROTO)"
    unfolding outcome_def by blast
  with run cb' neg show ?thesis by blast
qed

theorem failure_reporting_witness:
  "aes_write_regv \<lparr>accepts = (\<lambda>k data. True), completes = (\<lambda>k data. (FP_URB_COMPLETED, 1))\<rparr>
     [\<lparr>reg = 1, value = 2\<rparr>, \<lparr>reg = 0, value = 0\<rparr>, \<lparr>reg = 3, value = 4\<rparr>] 3 =
   Some ([CursorSet 0, CursorSet 0, Transfer 0 1 [1, 2], CursorSet 1,
          Completed FP_URB_COMPLETED 2 1] @ [Callback (- EPROTO)]) \<and>
   aes_write_regv \<lparr>accepts = (\<lambda>k data. True), completes = (\<lambda>k data. (URB_CANCELLED, 0))\<rparr>
     [\<lparr>reg = 1, value = 2\<rparr>, \<lparr>reg = 0, value = 0\<rparr>, \<lparr>reg = 3, value = 4\<rparr>] 3 =
   Some ([CursorSet 0, CursorSet 0, Transfer 0 1 [1, 2], CursorSet 1,
          Completed URB_CANCELLED 2 0] @ [Callback (- EIO)]) \<and>
   aes_write_regv \<lparr>accepts = (\<lambda>k data. k = 0),
                   completes = (\<lambda>k data. (FP_URB_COMPLETED, int (length data)))\<rparr>
     [\<lparr>reg = 1, value = 2\<rparr>, \<lparr>reg = 0, value = 0\<rparr>, \<lparr>reg = 3, value = 4\<rparr>] 3 =
   Some ([CursorSet 0, CursorSet 0, Transfer 0 1 [1, 2], CursorSet 1,
          Completed FP_URB_COMPLETED 2 2, CursorSet 2, Rejected 2 1 [3, 4]] @ [Callback (- EIO)]) \<and>
   - EIO < 0 \<and> - EPROTO < 0"
proof -
  from failure_reporting [OF example_valid,
      of "\<lparr>accepts = (\<lambda>k data. True), completes = (\<lambda>k data. (FP_URB_COMPLETED, 1))\<rparr>"]
  have "- EIO < 0 \<and> - EPROTO < 0" by blast
  with example_short_transfer example_cancelled example_rejected show ?thesis
    by (simp only: simp_thms)
qed


end
